theory Spec2Isabelle
  imports Complex_Main "HOL-Library.AList"
begin

section \<open>Errors and Python primitives\<close>

text \<open>
  The Python exceptions the modelled code can raise. A function that can raise returns
  \<open>error + 'a\<close>, with \<open>Inl\<close> the exception; \<open>bindE\<close> sequences two such steps and
  stops at the first exception. The last constructor, \<open>NotANumber\<close>, is not an
  exception: it marks a floating-point operation whose result is a NaN (such as
  \<open>0.0 * inf\<close>), a value the numbers of this model do not have. The code goes on
  computing with the NaN; the model stops there, and no theorem below reads
  \<open>Inl NotANumber\<close> as an exception of the code.
\<close>

datatype error =
  KeyError | IndexError | TypeError | AttributeError | UnboundLocalError
  | ZeroDivisionError | ValueError | OverflowError | NotANumber

definition bindE :: "error + 'a \<Rightarrow> ('a \<Rightarrow> error + 'b) \<Rightarrow> error + 'b" where
  "bindE m f = (case m of Inl e \<Rightarrow> Inl e | Inr x \<Rightarrow> f x)"

text \<open>
  List indexing \<open>xs[i]\<close>: an index below zero counts from the end, an index out of range
  raises \<open>IndexError\<close>.
\<close>

definition py_index :: "'a list \<Rightarrow> int \<Rightarrow> error + 'a" where
  "py_index xs i =
     (if 0 \<le> i \<and> i < int (length xs) then Inr (xs ! nat i)
      else if i < 0 \<and> - int (length xs) \<le> i then Inr (xs ! nat (int (length xs) + i))
      else Inl IndexError)"

section \<open>Floating-point numbers\<close>

text \<open>
  Python's \<open>float\<close> and numpy's \<open>float64\<close> are IEEE 754 binary64 numbers. The model
  writes a double as the real number it denotes. \<open>DBL_MAX\<close> is the largest finite
  double; the real \<open>float_inf\<close> (the first power of two beyond it) stands for the positive
  infinity and \<open>- float_inf\<close> for the negative one, so that comparisons and \<open>min\<close> on the
  model's numbers agree with those on doubles. Zero has no sign in the model (it is read
  as \<open>+0.0\<close>), and a NaN has no representation (see \<open>NotANumber\<close> above).

  \<open>rint\<close> rounds a real to the nearest integer, a tie to the even neighbour, as Python's
  \<open>round(x)\<close> and numpy's \<open>rint\<close> do. \<open>rne\<close> rounds a real to the nearest number of the
  form \<open>m * 2 ^ (e - 52)\<close>, where \<open>e\<close> is the binary exponent of the argument, at least
  \<open>- 1022\<close> (below that the doubles are subnormal and equally spaced), a tie to the even
  \<open>m\<close>. \<open>fl\<close> is the rounding of IEEE arithmetic in its default mode: \<open>rne\<close>, with a
  result beyond \<open>DBL_MAX\<close> replaced by the infinity of its sign.
\<close>

definition rint :: "real \<Rightarrow> int" where
  "rint x =
     (let f = \<lfloor>x\<rfloor>; r = x - of_int f
      in if r < 1 / 2 then f else if 1 / 2 < r then f + 1 else if even f then f else f + 1)"

definition DBL_MAX :: real where
  "DBL_MAX = (2 ^ 53 - 1) * 2 ^ 971"

definition float_inf :: real where
  "float_inf = 2 ^ 1024"

definition is_inf :: "real \<Rightarrow> bool" where
  "is_inf x = (DBL_MAX < \<bar>x\<bar>)"

definition rne :: "real \<Rightarrow> real" where
  "rne x =
     (let e = max \<lfloor>log 2 \<bar>x\<bar>\<rfloor> (- 1022); u = 2 powr (of_int e - 52)
      in of_int (rint (x / u)) * u)"

definition fl :: "real \<Rightarrow> real" where
  "fl x = (let r = rne x in if DBL_MAX < r then float_inf else if r < - DBL_MAX then - float_inf else r)"

text \<open>
  Multiplication and division of two doubles. With finite operands the exact result is
  rounded by \<open>fl\<close>; the other cases are those of IEEE 754: an infinite operand gives an
  infinity, or a NaN (\<open>inf * 0\<close>, \<open>inf / inf\<close>, \<open>0 / 0\<close>); a finite number over an
  infinity gives zero, and a non-zero number over zero an infinity. \<open>fdiv\<close> is the
  division of numpy's \<open>float64\<close>, which does not raise. The division of Python's
  \<open>float\<close>, \<open>truediv\<close>, raises \<open>ZeroDivisionError\<close> on a zero divisor and is \<open>fdiv\<close>
  otherwise (an overflowing quotient is an infinity there too, not an exception).
\<close>

definition fmul :: "real \<Rightarrow> real \<Rightarrow> error + real" where
  "fmul a b =
     (if is_inf a \<or> is_inf b then
        (if a = 0 \<or> b = 0 then Inl NotANumber
         else Inr (if (0 < a) = (0 < b) then float_inf else - float_inf))
      else Inr (fl (a * b)))"

definition fdiv :: "real \<Rightarrow> real \<Rightarrow> error + real" where
  "fdiv a b =
     (if is_inf a then
        (if is_inf b then Inl NotANumber
         else Inr (if (0 < a) = (0 \<le> b) then float_inf else - float_inf))
      else if is_inf b then Inr 0
      else if b = 0 then
        (if a = 0 then Inl NotANumber else Inr (if 0 < a then float_inf else - float_inf))
      else Inr (fl (a / b)))"

definition truediv :: "real \<Rightarrow> real \<Rightarrow> error + real" where
  "truediv a b = (if b = 0 then Inl ZeroDivisionError else fdiv a b)"

text \<open>
  The functions of the \<open>math\<close> module and numpy's square root are taken to return the
  double nearest to the exact result (for the square root IEEE 754 requires it; for
  \<open>exp\<close>, \<open>log10\<close> and \<open>pow\<close> the C library comes within a unit in the last place and
  this is an idealisation). \<open>math.exp\<close> and \<open>math.pow\<close> raise \<open>OverflowError\<close> when a
  finite argument gives a result beyond \<open>DBL_MAX\<close>; a result that underflows is a
  subnormal or zero, with no exception. On an infinite argument they return the limit:
  \<open>math.exp(-inf)\<close> is \<open>0.0\<close>, \<open>math.exp(inf)\<close> and \<open>math.pow(inf, 2)\<close> are \<open>inf\<close>.
  \<open>math.log10\<close> raises \<open>ValueError\<close> outside its domain, zero included, and maps \<open>inf\<close>
  to \<open>inf\<close>. \<open>round(x)\<close> raises \<open>OverflowError\<close> on an infinity.
\<close>

definition math_exp :: "real \<Rightarrow> error + real" where
  "math_exp x =
     (if x < - DBL_MAX then Inr 0
      else if DBL_MAX < x then Inr float_inf
      else if is_inf (fl (exp x)) then Inl OverflowError
      else Inr (fl (exp x)))"

definition math_pow :: "real \<Rightarrow> nat \<Rightarrow> error + real" where
  "math_pow x n =
     (if n = 0 then Inr 1
      else if is_inf x then Inr (if 0 < x \<or> even n then float_inf else - float_inf)
      else if is_inf (fl (x ^ n)) then Inl OverflowError
      else Inr (fl (x ^ n)))"

definition math_log10 :: "real \<Rightarrow> error + real" where
  "math_log10 x =
     (if x \<le> 0 then Inl ValueError
      else if is_inf x then Inr float_inf
      else Inr (fl (log 10 x)))"

definition py_round :: "real \<Rightarrow> error + int" where
  "py_round x = (if is_inf x then Inl OverflowError else Inr (rint x))"

definition np_sqrt :: "real \<Rightarrow> real" where
  "np_sqrt x = (if is_inf x then float_inf else fl (sqrt x))"

text \<open>
  \<open>np_around x d\<close> is numpy's \<open>around(x, decimals=d)\<close>: it multiplies by \<open>10 ^ d\<close>,
  rounds the product to an integer and divides by \<open>10 ^ d\<close>, each of the three steps in
  double precision. The product of a large number overflows to an infinity, which the
  other two steps leave as it is.
\<close>

definition np_around :: "real \<Rightarrow> nat \<Rightarrow> real" where
  "np_around x decimals =
     (let y = fl (x * 10 ^ decimals)
      in if is_inf y then y else fl (of_int (rint y) / 10 ^ decimals))"

section \<open>The utility layer (dev/utils.py)\<close>

subsection \<open>Intervals and the neighbour search\<close>

text \<open>
  \<open>get_interval\<close>: four guards, then a scan for the first element not below the value.
  The scan reads \<open>num_list[index - 1]\<close>, which for index 0 is the last element. A scan
  that finds nothing falls off the end of the function, which returns \<open>None\<close>.
\<close>

fun get_interval_loop ::
  "'a::linorder \<Rightarrow> 'a list \<Rightarrow> nat \<Rightarrow> 'a list \<Rightarrow> error + ('a \<times> 'a) option" where
  "get_interval_loop v num_list index [] = Inr None"
| "get_interval_loop v num_list index (num # rest) =
     (if v \<le> num then
        bindE (py_index num_list (int index - 1)) (\<lambda>lo.
        bindE (py_index num_list (int index)) (\<lambda>hi. Inr (Some (lo, hi))))
      else get_interval_loop v num_list (Suc index) rest)"

definition get_interval :: "'a::linorder \<Rightarrow> 'a list \<Rightarrow> error + ('a \<times> 'a) option" where
  "get_interval v num_list =
     bindE (py_index num_list 0) (\<lambda>first.
       if v < first then Inr (Some (first, first))
       else bindE (py_index num_list (- 1)) (\<lambda>final.
         if final < v then Inr (Some (final, final))
         else if v = first then
           bindE (py_index num_list 1) (\<lambda>second. Inr (Some (first, second)))
         else if v = final then
           bindE (py_index num_list (- 2)) (\<lambda>penult. Inr (Some (penult, final)))
         else get_interval_loop v num_list 0 num_list))"

type_synonym loc = "real \<times> real"

text \<open>
  \<open>get_aps_in_grid\<close> is \<open>list(set(product(_min_interval, _max_interval)))\<close>. The order in
  which Python lists a set is not specified; the model lists the product in generation
  order without duplicates, and the theorems below do not rely on a particular order. A
  \<open>None\<close> interval makes \<open>product\<close> raise \<open>TypeError\<close>.
\<close>

definition get_aps_in_grid :: "loc \<Rightarrow> real list \<Rightarrow> error + loc list" where
  "get_aps_in_grid ue_location aps_per_axis =
     bindE (get_interval (fst ue_location) aps_per_axis) (\<lambda>min_interval.
     bindE (get_interval (snd ue_location) aps_per_axis) (\<lambda>max_interval.
       case (min_interval, max_interval) of
         (Some (x0, x1), Some (y0, y1)) \<Rightarrow>
           Inr (remdups [(x0, y0), (x0, y1), (x1, y0), (x1, y1)])
       | _ \<Rightarrow> Inl TypeError))"

definition valid_ap :: "loc \<Rightarrow> real list \<Rightarrow> bool" where
  "valid_ap a aps_per_axis = (fst a \<in> set aps_per_axis \<and> snd a \<in> set aps_per_axis)"

definition get_valid_neighbors :: "loc \<Rightarrow> real list \<Rightarrow> error + loc list" where
  "get_valid_neighbors a aps_per_axis =
     bindE (py_index aps_per_axis 1) (\<lambda>a1.
     bindE (py_index aps_per_axis 0) (\<lambda>a0.
       let step = a1 - a0;
           candidates = [(fst a - step, snd a), (fst a + step, snd a),
                         (fst a, snd a - step), (fst a, snd a + step)]
       in Inr (filter (\<lambda>c. valid_ap c aps_per_axis) candidates)))"

text \<open>
  One round of \<open>get_extended_neighboring_aps\<close>: \<open>all_aps\<close> starts as the set of the
  closest APs and takes in the valid neighbours of each.
\<close>

fun extend_all_aps :: "loc list \<Rightarrow> real list \<Rightarrow> loc list \<Rightarrow> error + loc list" where
  "extend_all_aps [] aps_per_axis all_aps = Inr all_aps"
| "extend_all_aps (a # closest_aps) aps_per_axis all_aps =
     (case get_valid_neighbors a aps_per_axis of
        Inl e \<Rightarrow> Inl e
      | Inr vs \<Rightarrow> extend_all_aps closest_aps aps_per_axis (all_aps @ vs))"

fun get_extended_neighboring_aps :: "loc list \<Rightarrow> real list \<Rightarrow> nat \<Rightarrow> error + loc list" where
  "get_extended_neighboring_aps closest_aps aps_per_axis 0 = Inr closest_aps"
| "get_extended_neighboring_aps closest_aps aps_per_axis (Suc radius) =
     (case extend_all_aps closest_aps aps_per_axis closest_aps of
        Inl e \<Rightarrow> Inl e
      | Inr all_aps \<Rightarrow> get_extended_neighboring_aps (remdups all_aps) aps_per_axis radius)"

record NEIGHBORING_APS =
  within_grid :: "loc list"
  rest :: "loc list"

definition get_neighboring_aps :: "loc \<Rightarrow> real list \<Rightarrow> nat \<Rightarrow> error + NEIGHBORING_APS" where
  "get_neighboring_aps ue_location aps_per_axis radius =
     bindE (get_aps_in_grid ue_location aps_per_axis) (\<lambda>neighboring_aps_in_grid.
       if 1 < radius then
         bindE (get_extended_neighboring_aps neighboring_aps_in_grid aps_per_axis (radius - 1))
           (\<lambda>extended.
             Inr \<lparr>within_grid = neighboring_aps_in_grid,
                  rest = remdups (filter (\<lambda>a. a \<notin> set neighboring_aps_in_grid) extended)\<rparr>)
       else Inr \<lparr>within_grid = neighboring_aps_in_grid, rest = []\<rparr>)"

subsection \<open>Distance and the closest AP\<close>

text \<open>
  \<open>get_ue_ap_distance\<close> subtracts the two locations as arrays and takes
  \<open>np.linalg.norm\<close> of the difference, which is the square root of the dot product of
  the vector with itself; the two products and their sum are each rounded. The
  coordinates are taken to be finite doubles.
\<close>

definition np_linalg_norm :: "loc \<Rightarrow> real" where
  "np_linalg_norm v = np_sqrt (fl (fl (fst v * fst v) + fl (snd v * snd v)))"

definition get_ue_ap_distance :: "loc \<Rightarrow> loc \<Rightarrow> real" where
  "get_ue_ap_distance ap_location ue_location =
     np_around (np_linalg_norm (fl (fst ap_location - fst ue_location),
                                fl (snd ap_location - snd ue_location))) 3"

fun closest_ap_loop :: "loc list \<Rightarrow> loc \<Rightarrow> loc \<Rightarrow> real \<Rightarrow> loc" where
  "closest_ap_loop [] ue_location closest_ap min_distance = closest_ap"
| "closest_ap_loop (ap_location # remaining) ue_location closest_ap min_distance =
     (if get_ue_ap_distance ap_location ue_location < min_distance
      then closest_ap_loop remaining ue_location ap_location
             (get_ue_ap_distance ap_location ue_location)
      else closest_ap_loop remaining ue_location closest_ap min_distance)"

definition get_closest_ap_location :: "loc list \<Rightarrow> loc \<Rightarrow> error + loc" where
  "get_closest_ap_location neighboring_aps ue_location =
     bindE (py_index neighboring_aps 0) (\<lambda>closest_ap.
       Inr (closest_ap_loop (drop 1 neighboring_aps) ue_location closest_ap
              (get_ue_ap_distance closest_ap ue_location)))"

definition get_ue_ap :: "loc \<Rightarrow> real list \<Rightarrow> nat \<Rightarrow> error + loc \<times> loc list" where
  "get_ue_ap ue_location aps_per_axis radius =
     bindE (get_neighboring_aps ue_location aps_per_axis radius) (\<lambda>neighboring_aps.
     bindE (get_closest_ap_location (within_grid neighboring_aps) ue_location)
       (\<lambda>closest_ap_location.
         Inr (closest_ap_location, within_grid neighboring_aps @ rest neighboring_aps)))"

subsection \<open>Throughput, SLA and signal power\<close>

text \<open>
  The distance handed to \<open>calculate_distance_factor\<close> is a Python \<open>float\<close> when the
  function is called with a literal, and a numpy \<open>float64\<close> inside the simulator, where
  it comes from \<open>get_ue_ap_distance\<close>. The two differ in \<open>-(ue_ap_distance)/(2 * scale)\<close>
  when \<open>2 * scale\<close> is zero: the first raises \<open>ZeroDivisionError\<close>, the second gives an
  infinity or a NaN. \<open>scalar\<close> records which of the two a number is. The scale is taken
  to be a Python \<open>float\<close>.
\<close>

datatype scalar = PyFloat real | NpFloat real

definition calculate_distance_factor :: "scalar \<Rightarrow> real \<Rightarrow> error + real" where
  "calculate_distance_factor ue_ap_distance scale =
     bindE (case ue_ap_distance of
              PyFloat d \<Rightarrow> truediv (- d) (fl (2 * scale))
            | NpFloat d \<Rightarrow> fdiv (- d) (fl (2 * scale))) (\<lambda>q.
     bindE (math_exp q) (\<lambda>e. Inr (np_around e 3)))"

definition calculate_radio_bandwidth :: "real \<Rightarrow> real \<Rightarrow> error + real" where
  "calculate_radio_bandwidth distance_factor ap_channel_bandwidth =
     bindE (fmul distance_factor ap_channel_bandwidth) (\<lambda>x. Inr (np_around x 3))"

text \<open>
  In \<open>calculate_network_bandwidth\<close> the count is a Python \<open>int\<close>, and \<open>1 / n\<close> is the
  double nearest to the quotient.
\<close>

definition calculate_network_bandwidth :: "int \<Rightarrow> real \<Rightarrow> error + real" where
  "calculate_network_bandwidth n_ues_on_ap ap_uplink_bandwidth =
     (let ap_factor = (if n_ues_on_ap \<noteq> 0 then fl (1 / of_int n_ues_on_ap) else 1)
      in bindE (fmul ap_factor ap_uplink_bandwidth) (\<lambda>x. Inr (np_around x 3)))"

definition get_ue_throughput ::
  "real \<Rightarrow> scalar \<Rightarrow> int \<Rightarrow> real \<Rightarrow> real \<Rightarrow> real \<Rightarrow> error + real" where
  "get_ue_throughput scale ue_ap_distance n_ues_on_ap ap_uplink_bandwidth
       ap_channel_bandwidth app_required_bandwidth =
     bindE (calculate_distance_factor ue_ap_distance scale) (\<lambda>distance_factor.
     bindE (calculate_radio_bandwidth distance_factor ap_channel_bandwidth)
       (\<lambda>radio_bandwidth.
     bindE (calculate_network_bandwidth n_ues_on_ap ap_uplink_bandwidth)
       (\<lambda>network_bandwidth.
         Inr (min radio_bandwidth (min network_bandwidth app_required_bandwidth)))))"

text \<open>
  \<open>get_ue_sig_power\<close> has no \<open>else\<close>: at distance zero it returns \<open>None\<close>. Otherwise
  \<open>math.pow\<close> squares the distance (and raises when the square overflows), \<open>1 / ...\<close>
  raises when the square has underflowed to zero, and \<open>round\<close> raises when the
  reciprocal of a subnormal square has overflowed to an infinity.
\<close>

definition get_ue_sig_power :: "real \<Rightarrow> error + int option" where
  "get_ue_sig_power ue_ap_distance =
     (if ue_ap_distance \<noteq> 0 then
        bindE (math_pow ue_ap_distance 2) (\<lambda>p.
        bindE (truediv 1 p) (\<lambda>q.
        bindE (math_log10 q) (\<lambda>l.
        bindE (truediv (fl (10 * l)) 10) (\<lambda>x.
        bindE (py_round x) (\<lambda>r. Inr (Some r))))))
      else Inr None)"

definition get_ue_sla :: "real \<Rightarrow> real \<Rightarrow> int" where
  "get_ue_sla ue_throughput ue_required_bandwidth =
     (if ue_required_bandwidth \<le> ue_throughput then 1 else 0)"

subsection \<open>Applications, and the random draws behind a new UE\<close>

datatype app = Web | Video | Voice | Others

definition APPS_DICT :: "app \<Rightarrow> real" where
  "APPS_DICT a =
     (case a of Web \<Rightarrow> 0.25 | Video \<Rightarrow> 2 | Voice \<Rightarrow> fl 0.1 | Others \<Rightarrow> fl 0.05)"

text \<open>
  The code draws from numpy's generator three times for each UE: \<open>np.random.rand()\<close> for
  the application and \<open>np.random.randint\<close> twice for the location. The model takes the
  three outcomes as an input. It admits any real as an outcome of \<open>randint\<close>, which
  covers the integers of the requested range.
\<close>

record draw =
  rand :: real
  randint_x :: real
  randint_y :: real

definition get_ue_app :: "draw \<Rightarrow> app" where
  "get_ue_app d = (if np_around (rand d) 3 < fl 0.7 then Web else Video)"

definition get_random_location :: "real \<Rightarrow> real \<Rightarrow> draw \<Rightarrow> loc" where
  "get_random_location lo hi d = (randint_x d, randint_y d)"

definition get_center_grid :: "real \<Rightarrow> real list \<Rightarrow> draw \<Rightarrow> error + loc" where
  "get_center_grid scale aps_per_axis d =
     bindE (truediv (sum_list aps_per_axis) (real (length aps_per_axis))) (\<lambda>mid_point.
       Inr (get_random_location (mid_point - 1.5 * scale) (mid_point + 1.5 * scale) d))"

definition get_ue_location :: "app \<Rightarrow> real \<Rightarrow> real list \<Rightarrow> draw \<Rightarrow> error + loc" where
  "get_ue_location app_type scale aps_per_axis d =
     (if app_type = Video then get_center_grid scale aps_per_axis d
      else Inr (get_random_location 0 (1 + (2 * real (length aps_per_axis)) * scale) d))"

section \<open>The entity model (dev/utils.py)\<close>

text \<open>
  \<open>n_ues\<close> and \<open>ues_meeting_sla\<close> are dictionaries with the four applications as their
  fixed keys, so they are total functions on \<open>app\<close>. \<open>signal_power\<close> is \<open>None\<close> after
  \<open>get_ue_sig_power\<close> returned nothing.
\<close>

record AP =
  ap_id :: nat
  location :: loc
  n_ues :: "app \<Rightarrow> nat set"
  ues_meeting_sla :: "app \<Rightarrow> int"
  max_connections :: nat
  uplink_bandwidth :: real
  channel_bandwidth :: real

record UE =
  ue_id :: nat
  ap :: nat
  location :: loc
  app :: app
  required_bandwidth :: real
  neighboring_aps :: "nat list"
  distance :: real
  throughput :: real
  sla :: int
  signal_power :: "int option"

text \<open>The constructors, with the defaults of \<open>__init__\<close> as the simulator calls them.\<close>

definition new_AP :: "nat \<Rightarrow> loc \<Rightarrow> AP" where
  "new_AP i l =
     \<lparr>ap_id = i, location = l, n_ues = (\<lambda>_. {}), ues_meeting_sla = (\<lambda>_. 0),
      max_connections = 50, uplink_bandwidth = 25, channel_bandwidth = 10\<rparr>"

definition new_UE :: "nat \<Rightarrow> nat \<Rightarrow> loc \<Rightarrow> app \<Rightarrow> real \<Rightarrow> nat list \<Rightarrow> UE" where
  "new_UE i k l c bw ids =
     \<lparr>ue_id = i, ap = k, location = l, app = c, required_bandwidth = bw,
      neighboring_aps = ids, distance = 0, throughput = 0, sla = 1,
      signal_power = Some (- 100)\<rparr>"

section \<open>The network simulator (dev/network.py)\<close>

text \<open>
  The state of a \<open>StaticNetwork\<close>. The dictionaries \<open>_ap_dict\<close>, \<open>_ue_dict\<close> and
  \<open>_location_to_ap_lookup\<close> are association lists in insertion order; \<open>_ap_dict\<close> and
  \<open>_ue_dict\<close> can hold Python's \<open>None\<close>. The two \<open>defaultdict(int)\<close> counters are total
  functions. An AP or UE object lives in its dictionary under its key: mutating the object
  is storing its new value under that key (\<open>store_ap\<close>, \<open>store_ue\<close>). Logging is left out.
\<close>

record StaticNetwork =
  num_ues :: nat
  num_aps :: nat
  scale :: real
  explore_radius :: nat
  x_units :: nat
  aps_per_axis :: "real list"
  location_to_ap_lookup :: "(loc \<times> nat) list"
  ap_dict :: "(nat \<times> AP) list option"
  ue_dict :: "(nat \<times> UE) list option"
  ue_app_stats :: "app \<Rightarrow> int"
  ue_sla_stats :: "string \<Rightarrow> int"

definition store_ap :: "StaticNetwork \<Rightarrow> nat \<Rightarrow> AP \<Rightarrow> StaticNetwork" where
  "store_ap s k a = s\<lparr>ap_dict := map_option (AList.update k a) (ap_dict s)\<rparr>"

definition store_ue :: "StaticNetwork \<Rightarrow> nat \<Rightarrow> UE \<Rightarrow> StaticNetwork" where
  "store_ue s k u = s\<lparr>ue_dict := map_option (AList.update k u) (ue_dict s)\<rparr>"

subsection \<open>Neighbour lists\<close>

fun neighboring_ap_ids :: "StaticNetwork \<Rightarrow> loc \<Rightarrow> loc list \<Rightarrow> error + nat list" where
  "neighboring_ap_ids s current_ap_location [] = Inr []"
| "neighboring_ap_ids s current_ap_location (ap_location # remaining) =
     (if current_ap_location \<noteq> ap_location then
        (case map_of (location_to_ap_lookup s) ap_location of
           None \<Rightarrow> Inl KeyError
         | Some i \<Rightarrow>
             (case neighboring_ap_ids s current_ap_location remaining of
                Inl e \<Rightarrow> Inl e
              | Inr ids \<Rightarrow> Inr (i # ids)))
      else neighboring_ap_ids s current_ap_location remaining)"

definition fetch_neighboring_aps :: "StaticNetwork \<Rightarrow> UE \<Rightarrow> AP \<Rightarrow> error + nat list" where
  "fetch_neighboring_aps s u a =
     bindE (get_neighboring_aps (UE.location u) (aps_per_axis s) (explore_radius s))
       (\<lambda>nb. neighboring_ap_ids s (AP.location a) (within_grid nb @ rest nb))"

subsection \<open>A UE's statistics\<close>

definition total_ues :: "(app \<Rightarrow> nat set) \<Rightarrow> int" where
  "total_ues n_ues_dict =
     int (card (n_ues_dict Web)) + int (card (n_ues_dict Video))
     + int (card (n_ues_dict Voice)) + int (card (n_ues_dict Others))"

definition calculate_ue_throughput ::
  "StaticNetwork \<Rightarrow> AP \<Rightarrow> real \<Rightarrow> real \<Rightarrow> error + real" where
  "calculate_ue_throughput s current_ap ue_ap_distance ue_required_bandwidth =
     get_ue_throughput (scale s) (NpFloat ue_ap_distance) (total_ues (n_ues current_ap))
       (uplink_bandwidth current_ap) (channel_bandwidth current_ap) ue_required_bandwidth"

definition calculate_ue_sla :: "StaticNetwork \<Rightarrow> real \<Rightarrow> real \<Rightarrow> int \<times> StaticNetwork" where
  "calculate_ue_sla s ue_throughput ue_required_bandwidth =
     (let meets = get_ue_sla ue_throughput ue_required_bandwidth;
          key = (if meets = 0 then ''Doesnot'' else ''Meets'')
      in (meets, s\<lparr>ue_sla_stats := (ue_sla_stats s)(key := ue_sla_stats s key + 1)\<rparr>))"

definition calculate_ue_signal_power :: "real \<Rightarrow> error + int option" where
  "calculate_ue_signal_power ue_ap_distance = get_ue_sig_power ue_ap_distance"

text \<open>
  \<open>update_ue_stats\<close> mutates the UE and the AP it is given and the simulator's counters.
  The model returns the three new values and, first, whether an exception stopped it; the
  values hold the assignments made before the exception.
\<close>

definition update_ue_stats ::
  "StaticNetwork \<Rightarrow> UE \<Rightarrow> AP \<Rightarrow> (error + unit) \<times> UE \<times> AP \<times> StaticNetwork" where
  "update_ue_stats s u a =
     (let u1 = u\<lparr>distance := get_ue_ap_distance (UE.location u) (AP.location a)\<rparr>
      in case calculate_ue_throughput s a (distance u1) (required_bandwidth u1) of
           Inl e \<Rightarrow> (Inl e, u1, a, s)
         | Inr t \<Rightarrow>
             (let u2 = u1\<lparr>throughput := t\<rparr>;
                  (meets, s1) = calculate_ue_sla s (throughput u2) (required_bandwidth u2);
                  u3 = u2\<lparr>sla := meets\<rparr>;
                  a1 = a\<lparr>ues_meeting_sla :=
                          (ues_meeting_sla a)(app u3 := ues_meeting_sla a (app u3) + sla u3)\<rparr>
              in case calculate_ue_signal_power (distance u3) of
                   Inl e \<Rightarrow> (Inl e, u3, a1, s1)
                 | Inr p \<Rightarrow> (Inr (), u3\<lparr>signal_power := p\<rparr>, a1, s1)))"

subsection \<open>Placing APs and instantiating UEs\<close>

fun place_aps_loop ::
  "loc list \<Rightarrow> nat \<Rightarrow> (loc \<times> nat) list \<Rightarrow> (nat \<times> AP) list
     \<Rightarrow> (loc \<times> nat) list \<times> (nat \<times> AP) list" where
  "place_aps_loop [] i lookup aps = (lookup, aps)"
| "place_aps_loop (l # ls) i lookup aps =
     place_aps_loop ls (Suc i) (AList.update l i lookup) (AList.update i (new_AP i l) aps)"

text \<open>
  \<open>_place_aps\<close> fills \<open>_location_to_ap_lookup\<close> in place and returns the new AP
  dictionary; it does not assign \<open>_ap_dict\<close>.
\<close>

definition place_aps :: "StaticNetwork \<Rightarrow> (nat \<times> AP) list \<times> StaticNetwork" where
  "place_aps s =
     (let (lookup, aps) =
            place_aps_loop (List.product (aps_per_axis s) (aps_per_axis s)) 1
              (location_to_ap_lookup s) []
      in (aps, s\<lparr>location_to_ap_lookup := lookup\<rparr>))"

text \<open>The body of the loop of \<open>_instantiate_ues\<close>, for one \<open>ue_id\<close> and its draws.\<close>

definition instantiate_ue ::
  "StaticNetwork \<Rightarrow> nat \<Rightarrow> draw \<Rightarrow> (error + UE) \<times> StaticNetwork" where
  "instantiate_ue s i d =
     (let ue_app = get_ue_app d;
          s1 = s\<lparr>ue_app_stats := (ue_app_stats s)(ue_app := ue_app_stats s ue_app + 1)\<rparr>
      in case get_ue_location ue_app (scale s1) (aps_per_axis s1) d of
           Inl e \<Rightarrow> (Inl e, s1)
         | Inr ue_location \<Rightarrow>
       (case get_ue_ap ue_location (aps_per_axis s1) (explore_radius s1) of
           Inl e \<Rightarrow> (Inl e, s1)
         | Inr (current_ap_location, nbs) \<Rightarrow>
       (case map_of (location_to_ap_lookup s1) current_ap_location of
           None \<Rightarrow> (Inl KeyError, s1)
         | Some current_ap_id \<Rightarrow>
       (case ap_dict s1 of
           None \<Rightarrow> (Inl TypeError, s1)
         | Some aps \<Rightarrow>
       (case map_of aps current_ap_id of
           None \<Rightarrow> (Inl KeyError, s1)
         | Some current_ap \<Rightarrow>
             (let current_ap1 = current_ap\<lparr>n_ues :=
                    (n_ues current_ap)(ue_app := insert i (n_ues current_ap ue_app))\<rparr>;
                  s2 = store_ap s1 current_ap_id current_ap1
              in case neighboring_ap_ids s2 current_ap_location nbs of
                   Inl e \<Rightarrow> (Inl e, s2)
                 | Inr ids \<Rightarrow>
                     (let new_ue = new_UE i current_ap_id ue_location ue_app
                                     (APPS_DICT ue_app) ids;
                          (r, new_ue1, current_ap2, s3) = update_ue_stats s2 new_ue current_ap1;
                          s4 = store_ap s3 current_ap_id current_ap2
                      in case r of
                           Inl e \<Rightarrow> (Inl e, s4)
                         | Inr _ \<Rightarrow> (Inr new_ue1, s4))))))))"

fun instantiate_ues_loop ::
  "nat list \<Rightarrow> (nat \<Rightarrow> draw) \<Rightarrow> (nat \<times> UE) list \<Rightarrow> StaticNetwork
     \<Rightarrow> (error + (nat \<times> UE) list) \<times> StaticNetwork" where
  "instantiate_ues_loop [] rng ues s = (Inr ues, s)"
| "instantiate_ues_loop (i # remaining) rng ues s =
     (case instantiate_ue s i (rng i) of
        (Inl e, s') \<Rightarrow> (Inl e, s')
      | (Inr new_ue, s') \<Rightarrow> instantiate_ues_loop remaining rng (AList.update i new_ue ues) s')"

definition instantiate_ues ::
  "StaticNetwork \<Rightarrow> (nat \<Rightarrow> draw) \<Rightarrow> (error + (nat \<times> UE) list) \<times> StaticNetwork" where
  "instantiate_ues s rng = instantiate_ues_loop [1..<Suc (num_ues s)] rng [] s"

text \<open>
  The constructor. \<open>rng i\<close> holds the draws for UE \<open>i\<close>. An exception in the constructor
  leaves no simulator behind.
\<close>

definition StaticNetwork_init ::
  "nat \<Rightarrow> nat \<Rightarrow> real \<Rightarrow> nat \<Rightarrow> (nat \<Rightarrow> draw) \<Rightarrow> error + StaticNetwork" where
  "StaticNetwork_init n_ues0 n_aps0 scale0 radius0 rng =
     (let units = nat \<lfloor>fl (sqrt (real n_aps0))\<rfloor>;
          s0 = \<lparr>num_ues = n_ues0, num_aps = n_aps0, scale = scale0,
                explore_radius = radius0, x_units = units,
                aps_per_axis = map (\<lambda>i. fl ((1 + 2 * real i) * scale0)) [0..<units],
                location_to_ap_lookup = [], ap_dict = None, ue_dict = None,
                ue_app_stats = (\<lambda>_. 0), ue_sla_stats = (\<lambda>_. 0)\<rparr>;
          (aps, s1) = place_aps s0;
          s2 = s1\<lparr>ap_dict := Some aps\<rparr>
      in case instantiate_ues s2 rng of
           (Inl e, s3) \<Rightarrow> Inl e
         | (Inr ues, s3) \<Rightarrow> Inr (s3\<lparr>ue_dict := Some ues\<rparr>))"

subsection \<open>Handoff\<close>

definition validate_ue :: "StaticNetwork \<Rightarrow> nat \<Rightarrow> error + UE" where
  "validate_ue s i =
     (case ue_dict s of
        None \<Rightarrow> Inl TypeError
      | Some ues \<Rightarrow> (case map_of ues i of None \<Rightarrow> Inl KeyError | Some u \<Rightarrow> Inr u))"

definition validate_ap :: "StaticNetwork \<Rightarrow> nat \<Rightarrow> error + AP" where
  "validate_ap s k =
     (case ap_dict s of
        None \<Rightarrow> Inl TypeError
      | Some aps \<Rightarrow> (case map_of aps k of None \<Rightarrow> Inl KeyError | Some a \<Rightarrow> Inr a))"

record handoff_result =
  DONE :: bool
  UE :: "UE option"
  OLD_AP :: "AP option"
  NEW_AP :: "AP option"

text \<open>
  \<open>handoff_to_ap\<close> receives the UE and its current AP as objects. The model passes each
  as the key it is stored under and its value at the call: \<open>(uk, u)\<close> and \<open>(ck, current_ap)\<close>.
  The steps are in the order of the source: the UE leaves the current AP's set
  (\<open>set.remove\<close> raises \<open>KeyError\<close> for an absent element), the counter is decremented,
  and only then is the new AP looked up.
\<close>

definition handoff_to_ap ::
  "StaticNetwork \<Rightarrow> nat \<times> UE \<Rightarrow> nat \<times> AP \<Rightarrow> nat
     \<Rightarrow> (error + handoff_result) \<times> StaticNetwork" where
  "handoff_to_ap s ue_ref ap_ref new_ap_id =
     (let (uk, u) = ue_ref; (ck, current_ap) = ap_ref
      in if ue_id u \<notin> n_ues current_ap (app u) then (Inl KeyError, s)
         else
           (let current_ap1 = current_ap\<lparr>n_ues :=
                  (n_ues current_ap)(app u := n_ues current_ap (app u) - {ue_id u})\<rparr>;
                current_ap2 = current_ap1\<lparr>ues_meeting_sla :=
                  (ues_meeting_sla current_ap1)
                    (app u := ues_meeting_sla current_ap1 (app u) - sla u)\<rparr>;
                s1 = store_ap s ck current_ap2
            in case validate_ap s1 new_ap_id of
                 Inl e \<Rightarrow> (Inl e, s1)
               | Inr new_ap \<Rightarrow>
                   (let u1 = u\<lparr>ap := new_ap_id\<rparr>;
                        new_ap1 = new_ap\<lparr>n_ues :=
                          (n_ues new_ap)(app u1 := insert (ue_id u1) (n_ues new_ap (app u1)))\<rparr>;
                        s2 = store_ap (store_ue s1 uk u1) new_ap_id new_ap1
                    in case fetch_neighboring_aps s2 u1 new_ap1 of
                         Inl e \<Rightarrow> (Inl e, s2)
                       | Inr ids \<Rightarrow>
                           (let u2 = u1\<lparr>neighboring_aps := ids\<rparr>;
                                (r, u3, new_ap2, s3) = update_ue_stats s2 u2 new_ap1;
                                s4 = store_ap (store_ue s3 uk u3) new_ap_id new_ap2
                            in case r of
                                 Inl e \<Rightarrow> (Inl e, s4)
                               | Inr _ \<Rightarrow>
                                   (Inr \<lparr>DONE = True, UE = Some u3,
                                         OLD_AP = Some current_ap2, NEW_AP = Some new_ap2\<rparr>,
                                    s4)))))"

definition perform_handoff ::
  "StaticNetwork \<Rightarrow> nat \<Rightarrow> nat \<Rightarrow> (error + handoff_result) \<times> StaticNetwork" where
  "perform_handoff s i k =
     (case validate_ue s i of
        Inl e \<Rightarrow> (Inl e, s)
      | Inr u \<Rightarrow>
          (case ap_dict s of
             None \<Rightarrow> (Inl TypeError, s)
           | Some aps \<Rightarrow>
               (case map_of aps (ap u) of
                  None \<Rightarrow> (Inl KeyError, s)
                | Some current_ap \<Rightarrow>
                    if ap u = k then
                      (Inr \<lparr>DONE = False, UE = None, OLD_AP = None, NEW_AP = None\<rparr>, s)
                    else handoff_to_ap s (i, u) (ap u, current_ap) k)))"

subsection \<open>Reset and the queries\<close>

text \<open>
  \<open>reset_network\<close> sets both dictionaries to \<open>None\<close>, calls \<open>_place_aps\<close> and drops the
  dictionary it returns, then calls \<open>_instantiate_ues\<close> and drops its result as well.
\<close>

definition reset_network ::
  "StaticNetwork \<Rightarrow> (nat \<Rightarrow> draw) \<Rightarrow> (error + unit) \<times> StaticNetwork" where
  "reset_network s rng =
     (let s1 = s\<lparr>ap_dict := None, ue_dict := None\<rparr>;
          (aps, s2) = place_aps s1
      in case instantiate_ues s2 rng of
           (Inl e, s3) \<Rightarrow> (Inl e, s3)
         | (Inr ues, s3) \<Rightarrow> (Inr (), s3))"

text \<open>\<open>None.values()\<close> raises \<open>AttributeError\<close>.\<close>

definition ap_list :: "StaticNetwork \<Rightarrow> error + AP list" where
  "ap_list s = (case ap_dict s of None \<Rightarrow> Inl AttributeError | Some aps \<Rightarrow> Inr (map snd aps))"

definition ue_list :: "StaticNetwork \<Rightarrow> error + UE list" where
  "ue_list s = (case ue_dict s of None \<Rightarrow> Inl AttributeError | Some ues \<Rightarrow> Inr (map snd ues))"

definition ap_info :: "StaticNetwork \<Rightarrow> nat \<Rightarrow> error + AP" where
  "ap_info s k = validate_ap s k"

definition ue_info :: "StaticNetwork \<Rightarrow> nat \<Rightarrow> error + UE" where
  "ue_info s i = validate_ue s i"

text \<open>
  The states of a running simulator: what the constructor returns, and what a call of
  \<open>perform_handoff\<close> that returns (rather than raises) leaves behind.
\<close>

inductive reachable :: "StaticNetwork \<Rightarrow> bool" where
  reachable_init:
    "StaticNetwork_init n_ues0 n_aps0 scale0 radius0 rng = Inr s \<Longrightarrow> reachable s"
| reachable_handoff:
    "reachable s \<Longrightarrow> perform_handoff s i k = (Inr r, s') \<Longrightarrow> reachable s'"

section \<open>The cellular environment: the UE-based reward (base.py)\<close>

text \<open>
  \<open>CellularNetworkEnv.reward_based_on_ue_state\<close>. The local variable \<open>reward\<close> is
  assigned in every branch of the handoff case (action 1) but, in the stay case, only when
  both SLA values are falsy or both are truthy. In the two other stay cases the method
  reaches \<open>self.logger.debug("UE based reward: {}".format(reward))\<close> with \<open>reward\<close>
  unbound, which raises \<open>UnboundLocalError\<close>. Python's \<open>not x\<close> on an integer is
  \<open>x = 0\<close>.
\<close>

definition reward_based_on_ue_state :: "int \<Rightarrow> int \<Rightarrow> int \<Rightarrow> error + int" where
  "reward_based_on_ue_state action old_sla new_sla =
     (if action = 1 then
        (if old_sla = 0 \<and> new_sla = 0 then Inr (- 2)
         else if old_sla = 0 \<and> new_sla \<noteq> 0 then Inr 3
         else if old_sla \<noteq> 0 \<and> new_sla = 0 then Inr (- 4)
         else Inr (- 1))
      else
        (if old_sla = 0 \<and> new_sla = 0 then Inr (- 1)
         else if old_sla \<noteq> 0 \<and> new_sla \<noteq> 0 then Inr 1
         else Inl UnboundLocalError))"

section \<open>A small network\<close>

text \<open>
  The simulator of four APs at scale 100 (coordinates 100 and 300 on each axis) with
  explore radius 1 and one UE, whose draws make it a web UE located on AP 1.
\<close>

definition example_draw :: draw where
  "example_draw = \<lparr>rand = 0.5, randint_x = 100, randint_y = 100\<rparr>"

definition example_ue :: UE where
  "example_ue =
     \<lparr>ue_id = 1, ap = 1, location = (100, 100), app = Web, required_bandwidth = 0.25,
      neighboring_aps = [2, 3, 4], distance = 0, throughput = 0.25, sla = 1,
      signal_power = None\<rparr>"

definition example_network :: StaticNetwork where
  "example_network =
     \<lparr>num_ues = 1, num_aps = 4, scale = 100, explore_radius = 1, x_units = 2,
      aps_per_axis = [100, 300],
      location_to_ap_lookup =
        [((100, 100), 1), ((100, 300), 2), ((300, 100), 3), ((300, 300), 4)],
      ap_dict = Some
        [(1, (new_AP 1 (100, 100))\<lparr>n_ues := (\<lambda>_. {})(Web := {1}),
                                   ues_meeting_sla := (\<lambda>_. 0)(Web := 1)\<rparr>),
         (2, new_AP 2 (100, 300)), (3, new_AP 3 (300, 100)), (4, new_AP 4 (300, 300))],
      ue_dict = Some [(1, example_ue)],
      ue_app_stats = (\<lambda>_. 0)(Web := 1),
      ue_sla_stats = (\<lambda>_. 0)(''Meets'' := 1)\<rparr>"

section \<open>The consistency of the AP and UE maps\<close>

text \<open>
  The two dictionaries as maps (empty when the dictionary is \<open>None\<close>), and the relation
  between them that the simulator is meant to keep: an AP is stored under its id and its
  sets are finite; a UE is stored under its id, its SLA is 0 or 1, and the AP it names
  holds it under its application; whoever is in an AP's set is a UE that names this AP and
  this application; and each counter of an AP counts the UEs of the set whose stored SLA
  is 1.
\<close>

definition aps_of :: "StaticNetwork \<Rightarrow> nat \<rightharpoonup> AP" where
  "aps_of s = (case ap_dict s of None \<Rightarrow> Map.empty | Some al \<Rightarrow> map_of al)"

definition ues_of :: "StaticNetwork \<Rightarrow> nat \<rightharpoonup> UE" where
  "ues_of s = (case ue_dict s of None \<Rightarrow> Map.empty | Some al \<Rightarrow> map_of al)"

definition meeting :: "(nat \<rightharpoonup> UE) \<Rightarrow> nat set \<Rightarrow> nat set" where
  "meeting U S = {i \<in> S. \<exists>u. U i = Some u \<and> sla u = 1}"

definition consistent :: "(nat \<rightharpoonup> AP) \<Rightarrow> (nat \<rightharpoonup> UE) \<Rightarrow> bool" where
  "consistent A U \<longleftrightarrow>
     (\<forall>k a. A k = Some a \<longrightarrow> ap_id a = k \<and> (\<forall>c. finite (n_ues a c)))
   \<and> (\<forall>i u. U i = Some u \<longrightarrow>
          ue_id u = i \<and> (sla u = 0 \<or> sla u = 1)
          \<and> (\<exists>a. A (ap u) = Some a \<and> i \<in> n_ues a (app u)))
   \<and> (\<forall>k a c i. A k = Some a \<longrightarrow> i \<in> n_ues a c \<longrightarrow>
          (\<exists>u. U i = Some u \<and> ap u = k \<and> app u = c))
   \<and> (\<forall>k a c. A k = Some a \<longrightarrow>
          ues_meeting_sla a c = int (card (meeting U (n_ues a c))))"

text \<open>
  Three more relations, for the neighbour lists: the location lookup leads to an AP at that
  location; each UE's stored neighbour list is what \<open>fetch_neighboring_aps\<close> gives for the
  UE and its current AP; each UE's current AP sits on a corner of the UE's grid cell
  and no corner has a smaller (rounded) distance to the UE.
\<close>

definition lookup_ok :: "StaticNetwork \<Rightarrow> bool" where
  "lookup_ok s \<longleftrightarrow>
     (\<forall>l k. map_of (location_to_ap_lookup s) l = Some k \<longrightarrow>
        (\<exists>a. aps_of s k = Some a \<and> AP.location a = l))"

definition neighbors_ok :: "StaticNetwork \<Rightarrow> (nat \<rightharpoonup> UE) \<Rightarrow> bool" where
  "neighbors_ok s U \<longleftrightarrow>
     (\<forall>i u. U i = Some u \<longrightarrow>
        (\<exists>a. aps_of s (ap u) = Some a
           \<and> fetch_neighboring_aps s u a = Inr (neighboring_aps u)))"

definition closest_ok :: "StaticNetwork \<Rightarrow> (nat \<rightharpoonup> UE) \<Rightarrow> bool" where
  "closest_ok s U \<longleftrightarrow>
     (\<forall>i u. U i = Some u \<longrightarrow>
        (\<exists>a nb. aps_of s (ap u) = Some a
           \<and> get_neighboring_aps (UE.location u) (aps_per_axis s) (explore_radius s) = Inr nb
           \<and> AP.location a \<in> set (within_grid nb)
           \<and> (\<forall>b \<in> set (within_grid nb).
                 get_ue_ap_distance (AP.location a) (UE.location u)
                   \<le> get_ue_ap_distance b (UE.location u))))"

definition well_formed :: "StaticNetwork \<Rightarrow> bool" where
  "well_formed s \<longleftrightarrow>
     ap_dict s \<noteq> None \<and> ue_dict s \<noteq> None \<and> consistent (aps_of s) (ues_of s)
     \<and> lookup_ok s \<and> neighbors_ok s (ues_of s)"

text \<open>
  While \<open>_instantiate_ues\<close> runs, the UEs made so far are in its local dictionary; the
  relations hold between the simulator and that dictionary.
\<close>

definition loop_inv :: "StaticNetwork \<Rightarrow> (nat \<rightharpoonup> UE) \<Rightarrow> bool" where
  "loop_inv s U \<longleftrightarrow>
     ap_dict s \<noteq> None \<and> consistent (aps_of s) U \<and> lookup_ok s \<and> neighbors_ok s U
     \<and> closest_ok s U"

section \<open>Basic facts\<close>

lemma bindE_Inr [simp]: "bindE (Inr x) f = f x"
  by (simp add: bindE_def)

lemma bindE_Inl [simp]: "bindE (Inl e) f = Inl e"
  by (simp add: bindE_def)

lemma bindE_eq_Inr: "bindE m f = Inr y \<longleftrightarrow> (\<exists>x. m = Inr x \<and> f x = Inr y)"
  by (cases m) simp_all

lemma py_index_nat: "i < length xs \<Longrightarrow> py_index xs (int i) = Inr (xs ! i)"
  by (simp add: py_index_def)

lemma py_index_pred:
  "0 < i \<Longrightarrow> i < length xs \<Longrightarrow> py_index xs (int i - 1) = Inr (xs ! (i - 1))"
  by (auto simp: py_index_def nat_diff_distrib' intro: arg_cong)

lemma py_index_last: "xs \<noteq> [] \<Longrightarrow> py_index xs (- 1) = Inr (last xs)"
  by (cases xs)
    (auto simp: py_index_def last_conv_nth nat_diff_distrib' intro!: arg_cong[where f="nth xs"])

lemma py_index_penult:
  "2 \<le> length xs \<Longrightarrow> py_index xs (- 2) = Inr (xs ! (length xs - 2))"
  by (auto simp: py_index_def nat_diff_distrib' intro!: arg_cong[where f="nth xs"])

lemma rint_of_int [simp]: "rint (of_int k) = k"
  by (simp add: rint_def)

lemma rint_numeral [simp]: "rint (numeral n) = numeral n"
  using rint_of_int[of "numeral n"] by simp

lemma rint_neg_numeral [simp]: "rint (- numeral n) = - numeral n"
  using rint_of_int[of "- numeral n"] by simp

lemma rint_0 [simp]: "rint 0 = 0"
  using rint_of_int[of 0] by simp

lemma rint_1 [simp]: "rint 1 = 1"
  using rint_of_int[of 1] by simp

lemma rint_mono: "x \<le> y \<Longrightarrow> rint x \<le> rint y"
proof -
  assume xy: "x \<le> y"
  have fl: "\<lfloor>x\<rfloor> \<le> \<lfloor>y\<rfloor>" using xy by (rule floor_mono)
  show ?thesis
  proof (cases "\<lfloor>x\<rfloor> = \<lfloor>y\<rfloor>")
    case True
    then show ?thesis using xy by (auto simp: rint_def Let_def)
  next
    case False
    then have "\<lfloor>x\<rfloor> + 1 \<le> \<lfloor>y\<rfloor>" using fl by simp
    moreover have "rint x \<le> \<lfloor>x\<rfloor> + 1" by (simp add: rint_def Let_def)
    moreover have "\<lfloor>y\<rfloor> \<le> rint y" by (simp add: rint_def Let_def)
    ultimately show ?thesis by linarith
  qed
qed

lemma rint_unique: "of_int k - 1 / 2 < x \<Longrightarrow> x < of_int k + 1 / 2 \<Longrightarrow> rint x = k"
proof -
  assume a: "of_int k - 1 / 2 < x" "x < of_int k + 1 / 2"
  have "\<lfloor>x\<rfloor> = k \<or> \<lfloor>x\<rfloor> = k - 1" using a by linarith
  then show ?thesis
  proof
    assume "\<lfloor>x\<rfloor> = k"
    then show ?thesis using a by (auto simp: rint_def Let_def)
  next
    assume f: "\<lfloor>x\<rfloor> = k - 1"
    then have "x - of_int \<lfloor>x\<rfloor> > 1 / 2" using a by simp
    then show ?thesis using f by (auto simp: rint_def Let_def)
  qed
qed

lemma rint_tie:
  assumes "x - of_int \<lfloor>x\<rfloor> = 1 / 2"
  shows "rint x = (if even \<lfloor>x\<rfloor> then \<lfloor>x\<rfloor> else \<lfloor>x\<rfloor> + 1)"
proof -
  have "\<not> (x - of_int \<lfloor>x\<rfloor> < 1 / 2)" "\<not> (1 / 2 < x - of_int \<lfloor>x\<rfloor>)"
    using assms by linarith+
  then show ?thesis unfolding rint_def Let_def by (simp only: if_False)
qed

lemma rint_minus: "rint (- x) = - rint x"
proof -
  let ?f = "\<lfloor>x\<rfloor>"
  let ?r = "x - of_int ?f"
  have r: "0 \<le> ?r" "?r < 1" by linarith+
  consider "?r = 0" | "0 < ?r" "?r < 1 / 2" | "?r = 1 / 2" | "1 / 2 < ?r"
    using r by linarith
  then show ?thesis
  proof cases
    case 1
    then have "x = of_int ?f" by simp
    then have "rint x = ?f" "rint (- x) = - ?f"
      using rint_of_int[of ?f] rint_of_int[of "- ?f"] by simp_all
    then show ?thesis by simp
  next
    case 2
    have a: "rint x = ?f" by (rule rint_unique) (use 2 in linarith)+
    have "rint (- x) = - ?f" by (rule rint_unique) (use 2 in simp_all)
    with a show ?thesis by simp
  next
    case 3
    then have x: "x = of_int ?f + 1 / 2" by simp
    have fm: "\<lfloor>- x\<rfloor> = - ?f - 1" using 3 by linarith
    have rm: "- x - of_int \<lfloor>- x\<rfloor> = 1 / 2" using fm 3 by simp
    have a: "rint x = (if even ?f then ?f else ?f + 1)"
      by (rule rint_tie[OF 3])
    have b: "rint (- x) = (if even (- ?f - 1) then - ?f - 1 else - ?f)"
      using rint_tie[OF rm] unfolding fm by simp
    show ?thesis using a b by auto
  next
    case 4
    have a: "rint x = ?f + 1" by (rule rint_unique) (use 4 r in simp_all)
    have "rint (- x) = - ?f - 1" by (rule rint_unique) (use 4 r in simp_all)
    with a show ?thesis by simp
  qed
qed

lemma rint_nonneg: "0 \<le> x \<Longrightarrow> 0 \<le> rint x"
  using rint_mono[of 0 x] rint_of_int[of 0] by simp

section \<open>Rounding to a double\<close>

lemma rne_0: "rne 0 = 0"
  by (simp add: rne_def)

lemma rne_minus: "rne (- x) = - rne x"
  by (simp add: rne_def Let_def rint_minus)

lemma rne_nonneg: "0 \<le> x \<Longrightarrow> 0 \<le> rne x"
  by (simp add: rne_def Let_def rint_nonneg)

lemma rne_exact:
  assumes m: "\<bar>m\<bar> < 2 ^ 53" and k: "- 1074 \<le> k"
  shows "rne (of_int m * 2 powr of_int k) = of_int m * 2 powr of_int k"
proof (cases "m = 0")
  case True
  then show ?thesis by (simp add: rne_0)
next
  case False
  let ?x = "of_int m * 2 powr of_int k :: real"
  have ax: "\<bar>?x\<bar> = of_int \<bar>m\<bar> * 2 powr of_int k" by (simp add: abs_mult)
  have pos: "0 < \<bar>?x\<bar>" using False by simp
  have "\<bar>?x\<bar> < 2 ^ 53 * 2 powr of_int k"
  proof -
    have "(of_int \<bar>m\<bar> :: real) < of_int (2 ^ 53)" using m by (simp only: of_int_less_iff)
    then show ?thesis unfolding ax by simp
  qed
  also have "\<dots> = 2 powr (53 + of_int k)" by (simp add: powr_add)
  finally have "log 2 \<bar>?x\<bar> < 53 + of_int k"
    using pos by (simp add: log_less_iff)
  then have "\<lfloor>log 2 \<bar>?x\<bar>\<rfloor> < 53 + k" by linarith
  then have e: "max \<lfloor>log 2 \<bar>?x\<bar>\<rfloor> (- 1022) - 52 \<le> k" using k by simp
  define e where "e = max \<lfloor>log 2 \<bar>?x\<bar>\<rfloor> (- 1022)"
  define j where "j = nat (k - (e - 52))"
  have j: "int j = k - (e - 52)" using e by (simp add: j_def e_def)
  have "2 powr of_int k / 2 powr (of_int e - 52) = (2::real) powr of_int (int j)"
    unfolding j by (simp add: powr_diff)
  also have "\<dots> = 2 ^ j" by (simp add: powr_realpow)
  finally have q0: "2 powr of_int k / 2 powr (of_int e - 52) = (2::real) ^ j" .
  have "?x / 2 powr (of_int e - 52) = of_int m * (2 powr of_int k / 2 powr (of_int e - 52))"
    by simp
  then have q: "?x / 2 powr (of_int e - 52) = of_int (m * 2 ^ j)"
    unfolding q0 by simp
  have "rne ?x = of_int (rint (?x / 2 powr (of_int e - 52))) * 2 powr (of_int e - 52)"
    by (simp add: rne_def Let_def e_def)
  also have "\<dots> = (?x / 2 powr (of_int e - 52)) * 2 powr (of_int e - 52)"
    unfolding q rint_of_int ..
  also have "\<dots> = ?x" by simp
  finally show ?thesis .
qed

lemma rne_int: "\<bar>m\<bar> < 2 ^ 53 \<Longrightarrow> rne (of_int m) = of_int m"
  using rne_exact[of m 0] by simp

lemma rne_pow2: "- 1074 \<le> k \<Longrightarrow> rne (2 powr of_int k) = 2 powr of_int k"
  using rne_exact[of 1 k] by simp

lemma rne_unfold:
  "rne x = of_int (rint (x / 2 powr (of_int (max \<lfloor>log 2 \<bar>x\<bar>\<rfloor> (- 1022)) - 52)))
            * 2 powr (of_int (max \<lfloor>log 2 \<bar>x\<bar>\<rfloor> (- 1022)) - 52)"
  by (simp add: rne_def Let_def)

lemma powr_shift: "(2::real) powr (x + of_nat n) = 2 ^ n * 2 powr x"
  by (simp add: powr_add powr_realpow)

lemma rne_upper:
  assumes "0 < x"
  shows "rne x \<le> 2 powr (of_int (max \<lfloor>log 2 \<bar>x\<bar>\<rfloor> (- 1022)) + 1)"
proof -
  define e where "e = max \<lfloor>log 2 \<bar>x\<bar>\<rfloor> (- 1022)"
  define u :: real where "u = 2 powr (of_int e - 52)"
  have u: "0 < u" by (simp add: u_def)
  have "log 2 x < of_int \<lfloor>log 2 x\<rfloor> + 1" by linarith
  also have "\<dots> \<le> of_int e + 1" using assms by (simp add: e_def)
  finally have "x < 2 powr (of_int e + 1)"
    using assms by (simp add: log_less_iff)
  also have "\<dots> = 2 ^ 53 * u"
  proof -
    have "(of_int e :: real) + 1 = (of_int e - 52) + of_nat 53" by simp
    then have "(2::real) powr (of_int e + 1) = 2 powr ((of_int e - 52) + of_nat 53)"
      by (simp only:)
    then show ?thesis unfolding u_def by (simp only: powr_shift)
  qed
  finally have lt: "x < 2 ^ 53 * u" .
  then have "x / u \<le> of_int (2 ^ 53)" using u by (simp add: field_simps)
  then have "rint (x / u) \<le> 2 ^ 53"
    using rint_mono[of "x / u" "of_int (2 ^ 53)"] by (simp only: rint_of_int)
  then have "(of_int (rint (x / u)) :: real) \<le> of_int (2 ^ 53)" by (simp only: of_int_le_iff)
  then have "of_int (rint (x / u)) * u \<le> 2 ^ 53 * u" using u by simp
  also have "2 ^ 53 * u = 2 powr (of_int e + 1)"
  proof -
    have "(of_int e :: real) + 1 = (of_int e - 52) + of_nat 53" by simp
    then have "(2::real) powr (of_int e + 1) = 2 powr ((of_int e - 52) + of_nat 53)"
      by (simp only:)
    then show ?thesis unfolding u_def by (simp only: powr_shift)
  qed
  finally show ?thesis unfolding rne_unfold e_def u_def .
qed

lemma rne_lower:
  assumes "0 < x" and "- 1022 < \<lfloor>log 2 \<bar>x\<bar>\<rfloor>"
  shows "2 powr of_int \<lfloor>log 2 \<bar>x\<bar>\<rfloor> \<le> rne x"
proof -
  define e where "e = \<lfloor>log 2 \<bar>x\<bar>\<rfloor>"
  have me: "max \<lfloor>log 2 \<bar>x\<bar>\<rfloor> (- 1022) = e" using assms(2) by (simp add: e_def)
  define u :: real where "u = 2 powr (of_int e - 52)"
  have u: "0 < u" by (simp add: u_def)
  have eu: "2 powr of_int e = 2 ^ 52 * u"
  proof -
    have "(of_int e :: real) = (of_int e - 52) + of_nat 52" by simp
    then have "(2::real) powr of_int e = 2 powr ((of_int e - 52) + of_nat 52)"
      by (simp only:)
    then show ?thesis unfolding u_def by (simp only: powr_shift)
  qed
  have "of_int e \<le> log 2 x" using assms(1) by (simp add: e_def)
  then have "2 powr of_int e \<le> x" using assms(1) by (simp add: le_log_iff)
  then have "of_int (2 ^ 52) \<le> x / u" using u unfolding eu by (simp add: field_simps)
  then have "2 ^ 52 \<le> rint (x / u)"
    using rint_mono[of "of_int (2 ^ 52)" "x / u"] by (simp only: rint_of_int)
  then have "(of_int (2 ^ 52) :: real) \<le> of_int (rint (x / u))" by (simp only: of_int_le_iff)
  then have "2 ^ 52 * u \<le> of_int (rint (x / u)) * u" using u by simp
  moreover have "rne x = of_int (rint (x / u)) * u" unfolding rne_unfold me u_def ..
  ultimately have "2 powr of_int e \<le> rne x" by (simp only: eu)
  then show ?thesis unfolding e_def .
qed

lemma rne_mono_pos:
  assumes "0 < x" "x \<le> y"
  shows "rne x \<le> rne y"
proof -
  define ex where "ex = max \<lfloor>log 2 \<bar>x\<bar>\<rfloor> (- 1022)"
  define ey where "ey = max \<lfloor>log 2 \<bar>y\<bar>\<rfloor> (- 1022)"
  have y: "0 < y" using assms by simp
  have "log 2 x \<le> log 2 y" using assms by simp
  then have fle: "\<lfloor>log 2 \<bar>x\<bar>\<rfloor> \<le> \<lfloor>log 2 \<bar>y\<bar>\<rfloor>" using assms y by (simp add: floor_mono)
  then have le: "ex \<le> ey" by (simp add: ex_def ey_def)
  show ?thesis
  proof (cases "ex = ey")
    case True
    let ?u = "2 powr (of_int ey - 52) :: real"
    have "x / ?u \<le> y / ?u" using assms by (simp add: divide_right_mono)
    then have "rint (x / ?u) \<le> rint (y / ?u)" by (rule rint_mono)
    then have "of_int (rint (x / ?u)) * ?u \<le> of_int (rint (y / ?u)) * ?u" by simp
    then show ?thesis unfolding rne_unfold ex_def[symmetric] ey_def[symmetric] True .
  next
    case False
    then have lt: "ex < ey" using le by simp
    have lo: "- 1022 \<le> ex" by (simp add: ex_def)
    have big: "- 1022 < \<lfloor>log 2 \<bar>y\<bar>\<rfloor>"
      using lt lo unfolding ey_def by linarith
    then have eyf: "ey = \<lfloor>log 2 \<bar>y\<bar>\<rfloor>"
      unfolding ey_def by linarith
    have "rne x \<le> 2 powr (of_int ex + 1)" using rne_upper[OF assms(1)] by (simp add: ex_def)
    also have "\<dots> \<le> 2 powr of_int ey"
    proof -
      have "ex + 1 \<le> ey" using lt by simp
      then have "(of_int ex :: real) + 1 \<le> of_int ey" by linarith
      then show ?thesis by simp
    qed
    also have "\<dots> \<le> rne y" using rne_lower[OF y big] by (simp add: eyf)
    finally show ?thesis .
  qed
qed

lemma rne_mono: "x \<le> y \<Longrightarrow> rne x \<le> rne y"
proof -
  assume xy: "x \<le> y"
  consider "0 < x" | "x \<le> 0" "0 \<le> y" | "y < 0" by linarith
  then show ?thesis
  proof cases
    case 1
    then show ?thesis using xy by (rule rne_mono_pos)
  next
    case 2
    have "rne x \<le> 0" using rne_nonneg[of "- x"] 2(1) by (simp add: rne_minus)
    moreover have "0 \<le> rne y" using 2(2) by (rule rne_nonneg)
    ultimately show ?thesis by simp
  next
    case 3
    have "rne (- y) \<le> rne (- x)" using 3 xy by (intro rne_mono_pos) simp_all
    then show ?thesis by (simp add: rne_minus)
  qed
qed

lemma rne_between: "a \<le> x \<Longrightarrow> x \<le> b \<Longrightarrow> rne a = a \<Longrightarrow> rne b = b \<Longrightarrow> a \<le> rne x \<and> rne x \<le> b"
  using rne_mono[of a x] rne_mono[of x b] by simp


lemma DBL_MAX_pos: "0 < DBL_MAX"
  by (simp add: DBL_MAX_def)

lemma DBL_MAX_less_INF: "DBL_MAX < float_inf"
  by (simp add: DBL_MAX_def float_inf_def)

lemma INF_pos: "0 < float_inf"
  by (simp add: float_inf_def)

lemma rne_DBL_MAX: "rne DBL_MAX = DBL_MAX"
proof -
  have "rne (of_int (2 ^ 53 - 1) * 2 powr of_int 971) = of_int (2 ^ 53 - 1) * 2 powr of_int 971"
    by (rule rne_exact) simp_all
  moreover have "(2::real) powr of_int 971 = 2 ^ 971"
    by (simp add: powr_realpow[symmetric] del: powr_numeral)
  ultimately show ?thesis by (simp add: DBL_MAX_def)
qed

lemma rne_INF: "rne float_inf = float_inf"
proof -
  have "(2::real) powr of_int 1024 = 2 ^ 1024"
    by (simp add: powr_realpow[symmetric] del: powr_numeral)
  then show ?thesis using rne_pow2[of 1024] by (simp add: float_inf_def)
qed

lemma is_inf_INF [simp]: "is_inf float_inf" "is_inf (- float_inf)" "\<not> is_inf 0"
  using DBL_MAX_less_INF DBL_MAX_pos by (simp_all add: is_inf_def)

lemma fl_0 [simp]: "fl 0 = 0"
  using DBL_MAX_pos by (simp add: fl_def rne_0)

lemma fl_minus: "fl (- x) = - fl x"
  using DBL_MAX_pos by (auto simp: fl_def Let_def rne_minus)

lemma fl_mono: "x \<le> y \<Longrightarrow> fl x \<le> fl y"
  using rne_mono[of x y] DBL_MAX_less_INF DBL_MAX_pos by (auto simp: fl_def Let_def)

lemma fl_nonneg: "0 \<le> x \<Longrightarrow> 0 \<le> fl x"
  using fl_mono[of 0 x] by simp

lemma fl_nonpos: "x \<le> 0 \<Longrightarrow> fl x \<le> 0"
  using fl_mono[of x 0] by simp

lemma fl_bounds: "- float_inf \<le> fl x" "fl x \<le> float_inf"
  using DBL_MAX_less_INF DBL_MAX_pos by (auto simp: fl_def Let_def)

lemma fl_is_inf: "is_inf (fl x) \<longleftrightarrow> fl x = float_inf \<or> fl x = - float_inf"
  using DBL_MAX_less_INF DBL_MAX_pos by (auto simp: fl_def Let_def is_inf_def)

lemma fl_rne: "\<bar>rne x\<bar> \<le> DBL_MAX \<Longrightarrow> fl x = rne x"
  by (auto simp: fl_def Let_def)

lemma fl_DBL_MAX: "fl DBL_MAX = DBL_MAX"
  using DBL_MAX_pos by (simp add: fl_rne rne_DBL_MAX)

lemma fl_INF [simp]: "fl float_inf = float_inf"
  using DBL_MAX_less_INF by (simp add: fl_def rne_INF)


lemma fl_finite: "\<bar>x\<bar> \<le> DBL_MAX \<Longrightarrow> \<not> is_inf (fl x)"
proof -
  assume "\<bar>x\<bar> \<le> DBL_MAX"
  then have "- DBL_MAX \<le> x" "x \<le> DBL_MAX" by linarith+
  then have "fl (- DBL_MAX) \<le> fl x" "fl x \<le> fl DBL_MAX" by (simp_all add: fl_mono)
  then show ?thesis by (simp add: fl_minus fl_DBL_MAX is_inf_def)
qed

lemma fl_exact:
  assumes "\<bar>m\<bar> < 2 ^ 53" "- 1074 \<le> k" "k \<le> 971"
  shows "fl (of_int m * 2 powr of_int k) = of_int m * 2 powr of_int k"
proof -
  have r: "rne (of_int m * 2 powr of_int k) = of_int m * 2 powr of_int k"
    using assms(1,2) by (rule rne_exact)
  have "\<bar>m\<bar> \<le> 2 ^ 53 - 1" using assms(1) by simp
  then have a: "(of_int \<bar>m\<bar> :: real) \<le> of_int (2 ^ 53 - 1)" by (simp only: of_int_le_iff)
  have "(2::real) powr of_int k \<le> 2 powr of_int 971"
    using assms(3) by (intro powr_mono) simp_all
  also have "\<dots> = 2 ^ 971" by (simp add: powr_realpow[symmetric] del: powr_numeral)
  finally have b: "(2::real) powr of_int k \<le> 2 ^ 971" .
  have "\<bar>of_int m * 2 powr of_int k :: real\<bar> = of_int \<bar>m\<bar> * 2 powr of_int k"
    by (simp add: abs_mult)
  also have "\<dots> \<le> of_int (2 ^ 53 - 1) * 2 ^ 971"
    using a b by (intro mult_mono) simp_all
  also have "\<dots> = DBL_MAX" by (simp add: DBL_MAX_def)
  finally show ?thesis using r by (simp add: fl_rne)
qed

lemma fl_int: "\<bar>m\<bar> < 2 ^ 53 \<Longrightarrow> fl (of_int m) = of_int m"
  using fl_exact[of m 0] by simp

lemma fl_dyadic:
  assumes "\<bar>m\<bar> < 2 ^ 53" "k \<le> 1074"
  shows "fl (of_int m / 2 ^ k) = of_int m / 2 ^ k"
proof -
  have "(2::real) powr of_int (- int k) = 1 / 2 ^ k"
    by (simp add: powr_minus powr_realpow inverse_eq_divide)
  then show ?thesis using fl_exact[of m "- int k"] assms by simp
qed

lemma fl_1 [simp]: "fl 1 = 1"
  using fl_int[of 1] by simp

lemma fl_neg_1 [simp]: "fl (- 1) = - 1"
  using fl_int[of "- 1"] by simp

lemma fl_numeral [simp]: "numeral n < (2::int) ^ 53 \<Longrightarrow> fl (numeral n) = numeral n"
  using fl_int[of "numeral n"] by simp

lemma fl_neg_numeral [simp]: "numeral n < (2::int) ^ 53 \<Longrightarrow> fl (- numeral n) = - numeral n"
  using fl_int[of "- numeral n"] by simp

lemma fl_between:
  "a \<le> x \<Longrightarrow> x \<le> b \<Longrightarrow> fl a = a \<Longrightarrow> fl b = b \<Longrightarrow> a \<le> fl x \<and> fl x \<le> b"
  using fl_mono[of a x] fl_mono[of x b] by simp

lemma fl_tiny:
  assumes "\<bar>x\<bar> < 1 / 2 ^ 1075"
  shows "fl x = 0"
proof (cases "x = 0")
  case True
  then show ?thesis by simp
next
  case False
  have p: "(2::real) powr (- 1075) = 1 / 2 ^ 1075"
    using powr_realpow[of "2::real" 1075] by (simp add: powr_minus inverse_eq_divide)
  have "\<bar>x\<bar> < 2 powr (- 1075)" using assms p by simp
  then have "log 2 \<bar>x\<bar> < - 1075" using False by (simp add: log_less_iff)
  then have "\<lfloor>log 2 \<bar>x\<bar>\<rfloor> \<le> - 1022" by linarith
  then have e: "max \<lfloor>log 2 \<bar>x\<bar>\<rfloor> (- 1022) = - 1022" by simp
  have u: "(2::real) powr (of_int (- 1022) - 52) = 1 / 2 ^ 1074"
    using powr_realpow[of "2::real" 1074] by (simp add: powr_minus inverse_eq_divide)
  have "\<bar>x\<bar> * 2 ^ 1074 < 1 / 2 ^ 1075 * 2 ^ 1074"
    using assms by (intro mult_strict_right_mono) simp_all
  then have "\<bar>x * 2 ^ 1074\<bar> < 1 / 2" by (simp add: abs_mult)
  then have "of_int 0 - 1 / 2 < x * 2 ^ 1074" "x * 2 ^ 1074 < of_int 0 + 1 / 2"
    by linarith+
  then have "rint (x * 2 ^ 1074) = 0" by (rule rint_unique)
  then have "rne x = 0" unfolding rne_unfold e u by simp
  then show ?thesis using DBL_MAX_pos by (simp add: fl_rne)
qed

section \<open>Arithmetic on doubles\<close>

lemma DBL_MAX_ge: "2 ^ 1023 \<le> DBL_MAX"
  by (simp add: DBL_MAX_def)

lemma not_is_inf_small: "\<bar>x\<bar> \<le> 2 ^ 1023 \<Longrightarrow> \<not> is_inf x"
  using DBL_MAX_ge by (simp add: is_inf_def)

lemma not_is_inf_numeral [simp]:
  "numeral n \<le> (2::real) ^ 1023 \<Longrightarrow> \<not> is_inf (numeral n)"
  "numeral n \<le> (2::real) ^ 1023 \<Longrightarrow> \<not> is_inf (- numeral n)"
  "\<not> is_inf 1"
  by (simp_all add: not_is_inf_small)

lemma is_inf_minus [simp]: "is_inf (- x) = is_inf x"
  by (simp add: is_inf_def)

lemma fdiv_finite:
  "\<not> is_inf a \<Longrightarrow> \<not> is_inf b \<Longrightarrow> b \<noteq> 0 \<Longrightarrow> fdiv a b = Inr (fl (a / b))"
  by (simp add: fdiv_def)

lemma truediv_finite:
  "\<not> is_inf a \<Longrightarrow> \<not> is_inf b \<Longrightarrow> b \<noteq> 0 \<Longrightarrow> truediv a b = Inr (fl (a / b))"
  by (simp add: truediv_def fdiv_def)

lemma truediv_zero [simp]: "truediv a 0 = Inl ZeroDivisionError"
  by (simp add: truediv_def)

lemma fmul_finite: "\<not> is_inf a \<Longrightarrow> \<not> is_inf b \<Longrightarrow> fmul a b = Inr (fl (a * b))"
  by (simp add: fmul_def)

lemma exp_minus_nat_less: "exp (- real n) \<le> 1 / 2 ^ n"
proof -
  have "(2::real) \<le> exp 1" using exp_ge_add_one_self[of "1::real"] by simp
  then have "(2::real) ^ n \<le> exp 1 ^ n" by (intro power_mono) simp_all
  also have "\<dots> = exp (real n)" by (simp add: exp_of_nat_mult[symmetric] del: exp_of_nat_mult)
  finally have "1 / exp (real n) \<le> 1 / 2 ^ n" by (intro divide_left_mono) simp_all
  then show ?thesis by (simp add: exp_minus inverse_eq_divide)
qed

lemma math_exp_nonpos:
  assumes "q \<le> 0"
  shows "math_exp q = Inr (fl (exp q))" "0 \<le> fl (exp q)" "fl (exp q) \<le> 1"
proof -
  have le1: "exp q \<le> 1" using assms by simp
  show n: "0 \<le> fl (exp q)" by (simp add: fl_nonneg)
  show u: "fl (exp q) \<le> 1" using fl_mono[OF le1] by simp
  have fin: "\<not> is_inf (fl (exp q))" using n u DBL_MAX_ge by (simp add: is_inf_def)
  have big: "\<not> DBL_MAX < q" using assms DBL_MAX_pos by simp
  show "math_exp q = Inr (fl (exp q))"
  proof (cases "q < - DBL_MAX")
    case True
    then have "q \<le> - real 1076" using DBL_MAX_ge by simp
    then have "exp q \<le> exp (- real 1076)" by simp
    also have "\<dots> \<le> 1 / 2 ^ 1076" by (rule exp_minus_nat_less)
    also have "\<dots> < 1 / 2 ^ 1075" by simp
    finally have "\<bar>exp q\<bar> < 1 / 2 ^ 1075" by simp
    then have "fl (exp q) = 0" by (rule fl_tiny)
    then show ?thesis using True by (simp add: math_exp_def)
  next
    case False
    then show ?thesis using big fin by (simp add: math_exp_def)
  qed
qed

section \<open>Rounding to decimals\<close>

lemma np_around_mono: "x \<le> y \<Longrightarrow> np_around x d \<le> np_around y d"
proof -
  assume xy: "x \<le> y"
  define a where "a = fl (x * 10 ^ d)"
  define b where "b = fl (y * 10 ^ d)"
  have ab: "a \<le> b" unfolding a_def b_def using xy by (intro fl_mono) simp
  have ia: "is_inf a \<longleftrightarrow> a = float_inf \<or> a = - float_inf" unfolding a_def by (rule fl_is_inf)
  have ib: "is_inf b \<longleftrightarrow> b = float_inf \<or> b = - float_inf" unfolding b_def by (rule fl_is_inf)
  have ba: "- float_inf \<le> a" "a \<le> float_inf" unfolding a_def by (rule fl_bounds)+
  have bb: "- float_inf \<le> b" "b \<le> float_inf" unfolding b_def by (rule fl_bounds)+
  have m: "fl (of_int (rint a) / 10 ^ d) \<le> fl (of_int (rint b) / 10 ^ d)"
    using ab by (intro fl_mono divide_right_mono) (simp_all add: rint_mono)
  have na: "np_around x d = (if is_inf a then a else fl (of_int (rint a) / 10 ^ d))"
    by (simp add: np_around_def a_def)
  have nb: "np_around y d = (if is_inf b then b else fl (of_int (rint b) / 10 ^ d))"
    by (simp add: np_around_def b_def)
  show ?thesis
  proof (cases "is_inf a")
    case True
    then consider "a = float_inf" | "a = - float_inf" using ia by blast
    then show ?thesis
    proof cases
      case 1
      then have "b = float_inf" using ab bb by simp
      then show ?thesis using 1 na nb by simp
    next
      case 2
      then show ?thesis using na nb True bb fl_bounds(1)[of "of_int (rint b) / 10 ^ d"]
        by simp
    qed
  next
    case False
    show ?thesis
    proof (cases "is_inf b")
      case True
      then have "b = float_inf"
        using ib ab False ba DBL_MAX_less_INF by (auto simp: is_inf_def)
      then show ?thesis using na nb False fl_bounds(2)[of "of_int (rint a) / 10 ^ d"]
        by simp
    next
      case inf: False
      then show ?thesis using na nb False m by simp
    qed
  qed
qed

lemma np_around_int:
  assumes "\<bar>k\<bar> * 10 ^ d < 2 ^ 53"
  shows "np_around (of_int k) d = of_int k"
proof -
  have p: "(1::int) \<le> 10 ^ d" by simp
  have "\<bar>k\<bar> * 1 \<le> \<bar>k\<bar> * 10 ^ d" using p by (intro mult_left_mono) simp_all
  then have k: "\<bar>k\<bar> < 2 ^ 53" using assms by simp
  have a: "\<bar>k * 10 ^ d\<bar> < 2 ^ 53" using assms by (simp add: abs_mult)
  have "of_int k * (10::real) ^ d = of_int (k * 10 ^ d)" by simp
  then have y: "fl (of_int k * 10 ^ d) = of_int (k * 10 ^ d)"
    using fl_int[OF a] by (simp only:)
  have "\<bar>of_int (k * 10 ^ d) :: real\<bar> = of_int \<bar>k * 10 ^ d\<bar>" by simp
  also have "\<dots> \<le> of_int (2 ^ 53)" using a by (simp only: of_int_le_iff)
  also have "\<dots> \<le> 2 ^ 1023" by simp
  finally have fin: "\<not> is_inf (of_int (k * 10 ^ d))" by (rule not_is_inf_small)
  have "np_around (of_int k) d = fl (of_int (rint (of_int (k * 10 ^ d))) / 10 ^ d)"
    using fin by (simp add: np_around_def y del: of_int_mult of_int_power)
  also have "\<dots> = fl (of_int k)" by (simp only: rint_of_int) simp
  also have "\<dots> = of_int k" by (rule fl_int[OF k])
  finally show ?thesis .
qed

lemma np_around_0 [simp]: "np_around 0 d = 0"
  by (simp add: np_around_def)

lemma np_around_1 [simp]: "np_around 1 3 = 1"
  using np_around_int[of 1 3] by simp

lemma np_around_numeral [simp]:
  "numeral n * 1000 < (2::int) ^ 53 \<Longrightarrow> np_around (numeral n) 3 = numeral n"
  using np_around_int[of "numeral n" 3] by simp

lemma np_around_nonneg: "0 \<le> x \<Longrightarrow> 0 \<le> np_around x d"
  using np_around_mono[of 0 x d] by simp

lemma np_around_unit: "0 \<le> x \<Longrightarrow> x \<le> 1 \<Longrightarrow> 0 \<le> np_around x 3 \<and> np_around x 3 \<le> 1"
  using np_around_mono[of 0 x 3] np_around_mono[of x 1 3] by simp

text \<open>
  The value of \<open>np_around\<close> at a number whose scaled value lies between two doubles that
  round to the same integer.
\<close>

lemma np_around_eq:
  assumes "fl lo = lo" "fl hi = hi" "lo \<le> x * 10 ^ d" "x * 10 ^ d \<le> hi"
    "of_int k - 1 / 2 < lo" "hi < of_int k + 1 / 2" "\<bar>k\<bar> < 2 ^ 53"
  shows "np_around x d = fl (of_int k / 10 ^ d)"
proof -
  define y where "y = fl (x * 10 ^ d)"
  have b: "lo \<le> y" "y \<le> hi"
    unfolding y_def using fl_between[OF assms(3,4,1,2)] by simp_all
  have r: "rint y = k" by (rule rint_unique) (use b assms(5,6) in linarith)+
  have "\<bar>y\<bar> \<le> \<bar>of_int k :: real\<bar> + 1" using b assms(5,6) by linarith
  also have "\<dots> = of_int (\<bar>k\<bar> + 1)" by simp
  also have "\<dots> \<le> of_int (2 ^ 53)"
  proof -
    have "\<bar>k\<bar> + 1 \<le> 2 ^ 53" using assms(7) by simp
    then show ?thesis by (simp only: of_int_le_iff)
  qed
  also have "\<dots> \<le> 2 ^ 1023" by simp
  finally have "\<not> is_inf y" by (rule not_is_inf_small)
  then show ?thesis using r by (simp add: np_around_def y_def[symmetric])
qed

section \<open>Distance\<close>

lemma np_sqrt_nonneg: "0 \<le> x \<Longrightarrow> 0 \<le> np_sqrt x"
  using INF_pos by (simp add: np_sqrt_def fl_nonneg)

lemma np_linalg_norm_nonneg: "0 \<le> np_linalg_norm v"
  by (simp add: np_linalg_norm_def np_sqrt_nonneg fl_nonneg)

lemma get_ue_ap_distance_nonneg [simp]: "\<not> get_ue_ap_distance a u < 0"
  by (simp add: get_ue_ap_distance_def np_around_nonneg np_linalg_norm_nonneg not_less)

lemma get_ue_ap_distance_same [simp]: "get_ue_ap_distance a a = 0"
  by (simp add: get_ue_ap_distance_def np_linalg_norm_def np_sqrt_def)
section \<open>The interval search\<close>

lemma get_interval_loop_bracket:
  assumes "num_list = pre @ sfx" "index = length pre" "pre \<noteq> []" "last pre < v"
    "sfx \<noteq> []" "v \<le> last sfx"
  shows "\<exists>i. Suc i < length num_list
       \<and> get_interval_loop v num_list index sfx = Inr (Some (num_list ! i, num_list ! Suc i))
       \<and> num_list ! i < v \<and> v \<le> num_list ! Suc i"
  using assms
proof (induction sfx arbitrary: pre index)
  case Nil
  then show ?case by simp
next
  case (Cons num sfx)
  show ?case
  proof (cases "v \<le> num")
    case True
    have i: "0 < index" "index < length num_list" using Cons.prems by auto
    have a: "num_list ! (index - 1) = last pre"
      using Cons.prems by (simp add: nth_append last_conv_nth)
    have b: "num_list ! index = num" using Cons.prems by (simp add: nth_append)
    have "Suc (index - 1) = index" using i by simp
    with True i a b Cons.prems show ?thesis
      by (intro exI[of _ "index - 1"]) (simp add: py_index_nat py_index_pred)
  next
    case False
    then have r: "sfx \<noteq> []" using Cons.prems by auto
    have "\<exists>i. Suc i < length num_list
       \<and> get_interval_loop v num_list (Suc index) sfx
           = Inr (Some (num_list ! i, num_list ! Suc i))
       \<and> num_list ! i < v \<and> v \<le> num_list ! Suc i"
      using Cons.prems False r by (intro Cons.IH[of "pre @ [num]"]) auto
    with False show ?thesis by simp
  qed
qed

text \<open>
  C9. For a strictly increasing list of at least two coordinates: a value strictly between
  the first and the last element gets two consecutive elements that bracket it; the first
  element gets the first interval and the last element the last interval; and
  \<open>get_interval(345, [100, 300, 500, 700])\<close> is \<open>(300, 500)\<close>. A value out of range does
  not get an edge interval: it gets the edge element twice.
\<close>

theorem get_interval_brackets:
  fixes v :: "'a::linorder"
  assumes "sorted_wrt (<) xs" "2 \<le> length xs"
  shows "(hd xs < v \<and> v < last xs \<longrightarrow>
           (\<exists>i. Suc i < length xs \<and> get_interval v xs = Inr (Some (xs ! i, xs ! Suc i))
              \<and> xs ! i < v \<and> v \<le> xs ! Suc i))
       \<and> (v = hd xs \<longrightarrow> get_interval v xs = Inr (Some (xs ! 0, xs ! 1)))
       \<and> (v = last xs \<longrightarrow>
            get_interval v xs = Inr (Some (xs ! (length xs - 2), xs ! (length xs - 1))))
       \<and> (v < hd xs \<longrightarrow> get_interval v xs = Inr (Some (hd xs, hd xs)))
       \<and> (last xs < v \<longrightarrow> get_interval v xs = Inr (Some (last xs, last xs)))
       \<and> get_interval (345::int) [100, 300, 500, 700] = Inr (Some (300, 500))"
proof -
  obtain x sfx where xs: "xs = x # sfx" "sfx \<noteq> []"
    using assms(2) by (cases xs; cases "tl xs") auto
  have ne: "xs \<noteq> []" using xs by simp
  have i0: "py_index xs 0 = Inr (hd xs)"
    using py_index_nat[of 0 xs] xs by simp
  have i1: "py_index xs 1 = Inr (xs ! 1)"
    using py_index_nat[of 1 xs] assms(2) by simp
  have il: "py_index xs (- 1) = Inr (last xs)" by (rule py_index_last[OF ne])
  have ip: "py_index xs (- 2) = Inr (xs ! (length xs - 2))"
    by (rule py_index_penult[OF assms(2)])
  have lt: "hd xs < last xs"
    using assms(1) xs by auto
  have h0: "xs ! 0 = hd xs" using xs by simp
  have hl: "xs ! (length xs - Suc 0) = last xs" using ne by (simp add: last_conv_nth)
  have mid: "\<exists>i. Suc i < length xs \<and> get_interval v xs = Inr (Some (xs ! i, xs ! Suc i))
              \<and> xs ! i < v \<and> v \<le> xs ! Suc i" if "hd xs < v" "v < last xs"
  proof -
    have "\<exists>i. Suc i < length xs
       \<and> get_interval_loop v xs (Suc 0) sfx = Inr (Some (xs ! i, xs ! Suc i))
       \<and> xs ! i < v \<and> v \<le> xs ! Suc i"
      using that xs by (intro get_interval_loop_bracket[of xs "[x]"]) auto
    moreover have "get_interval v xs = get_interval_loop v xs (Suc 0) sfx"
      using that xs i0 il by (auto simp: get_interval_def)
    ultimately show ?thesis by simp
  qed
  have ex: "get_interval (345::int) [100, 300, 500, 700] = Inr (Some (300, 500))"
    by (simp add: get_interval_def py_index_def)
  show ?thesis
    using mid lt ex by (auto simp: get_interval_def i0 i1 il ip h0 hl)
qed

theorem get_interval_brackets_witness:
  "sorted_wrt (<) [100, 300, 500, 700 :: int] \<and> 2 \<le> length [100, 300, 500, 700 :: int]
   \<and> hd [100, 300, 500, 700 :: int] < 345 \<and> 345 < last [100, 300, 500, 700 :: int]
   \<and> (\<exists>i. Suc i < length [100, 300, 500, 700 :: int]
        \<and> get_interval 345 [100, 300, 500, 700 :: int]
            = Inr (Some ([100, 300, 500, 700] ! i, [100, 300, 500, 700] ! Suc i))
        \<and> [100, 300, 500, 700 :: int] ! i < 345 \<and> 345 \<le> [100, 300, 500, 700 :: int] ! Suc i)
   \<and> get_interval 700 [100, 300, 500, 700 :: int] = Inr (Some (500, 700))"
  using get_interval_brackets[of "[100, 300, 500, 700 :: int]" 345]
    get_interval_brackets[of "[100, 300, 500, 700 :: int]" 700]
  by simp

theorem get_interval_out_of_range_counterexample:
  "get_interval (50::int) [100, 300, 500, 700] = Inr (Some (100, 100))
   \<and> get_interval (50::int) [100, 300, 500, 700] \<noteq> Inr (Some (100, 300))
   \<and> get_interval (900::int) [100, 300, 500, 700] = Inr (Some (700, 700))
   \<and> get_interval (900::int) [100, 300, 500, 700] \<noteq> Inr (Some (500, 700))"
  by (simp add: get_interval_def py_index_def)

section \<open>Throughput, SLA and signal power\<close>


lemma fl_power2:
  assumes "n \<le> 1023"
  shows "fl (2 ^ n) = 2 ^ n"
proof (cases "n \<le> 52")
  case True
  then have "(2::int) ^ n \<le> 2 ^ 52" by (intro power_increasing) simp_all
  then have "\<bar>2 ^ n :: int\<bar> < 2 ^ 53" by simp
  from fl_int[OF this] show ?thesis by simp
next
  case False
  then have n: "n = 52 + (n - 52)" by simp
  have "(2::real) powr of_int (int (n - 52)) = 2 ^ (n - 52)"
    by (simp add: powr_realpow)
  moreover have "fl (of_int (2 ^ 52) * 2 powr of_int (int (n - 52)))
      = of_int (2 ^ 52) * 2 powr of_int (int (n - 52))"
    using assms by (intro fl_exact) simp_all
  ultimately have "fl (2 ^ 52 * 2 ^ (n - 52)) = (2::real) ^ 52 * 2 ^ (n - 52)" by simp
  then have "fl (2 ^ (52 + (n - 52))) = (2::real) ^ (52 + (n - 52))"
    by (simp only: power_add)
  then show ?thesis using n by simp
qed

lemma fl_inverse_power2:
  assumes "n \<le> 1074"
  shows "fl (1 / 2 ^ n) = 1 / 2 ^ n"
  using fl_dyadic[of 1 n] assms by simp








text \<open>
  For a scale in a range where \<open>2 * scale\<close> neither overflows nor vanishes, a finite
  non-negative distance and finite bandwidths, no step of \<open>get_ue_throughput\<close> raises and
  none yields an infinity or a NaN.
\<close>

lemma distance_factor_in_range:
  assumes "1 / 2 ^ 1000 \<le> sc" "sc \<le> 2 ^ 1000" "0 \<le> d" "d \<le> DBL_MAX"
  shows "calculate_distance_factor (PyFloat d) sc
           = Inr (np_around (fl (exp (fl (- d / fl (2 * sc))))) 3)"
    and "calculate_distance_factor (NpFloat d) sc
           = Inr (np_around (fl (exp (fl (- d / fl (2 * sc))))) 3)"
    and "0 \<le> np_around (fl (exp (fl (- d / fl (2 * sc))))) 3"
    and "np_around (fl (exp (fl (- d / fl (2 * sc))))) 3 \<le> 1"
proof -
  define t where "t = fl (2 * sc)"
  have "fl (1 / 2 ^ 999) \<le> t" unfolding t_def using assms(1) by (intro fl_mono) simp
  then have tlo: "1 / 2 ^ 999 \<le> t" using fl_inverse_power2[of 999] by simp
  have "t \<le> fl (2 ^ 1001)" unfolding t_def using assms(2) by (intro fl_mono) simp
  then have thi: "t \<le> 2 ^ 1001" using fl_power2[of 1001] by simp
  have tpos: "0 < t"
  proof -
    have "(0::real) < 1 / 2 ^ 999" by simp
    then show ?thesis using tlo by linarith
  qed
  have tfin: "\<not> is_inf t"
  proof -
    have "(2::real) ^ 1001 \<le> 2 ^ 1023" by (intro power_increasing) simp_all
    then show ?thesis using thi tpos by (intro not_is_inf_small) simp
  qed
  have dfin: "\<not> is_inf (- d)" using assms(3,4) by (simp add: is_inf_def)
  define q where "q = fl (- d / t)"
  have q0: "q \<le> 0" unfolding q_def using assms(3) tpos by (intro fl_nonpos) simp
  have d1: "truediv (- d) t = Inr q" "fdiv (- d) t = Inr q"
    unfolding q_def using dfin tfin tpos by (simp_all add: truediv_finite fdiv_finite)
  note e = math_exp_nonpos[OF q0]
  have "calculate_distance_factor (PyFloat d) sc = Inr (np_around (fl (exp q)) 3)"
    using d1(1) e(1) by (simp add: calculate_distance_factor_def t_def[symmetric])
  then show "calculate_distance_factor (PyFloat d) sc
           = Inr (np_around (fl (exp (fl (- d / fl (2 * sc))))) 3)"
    unfolding q_def t_def .
  have "calculate_distance_factor (NpFloat d) sc = Inr (np_around (fl (exp q)) 3)"
    using d1(2) e(1) by (simp add: calculate_distance_factor_def t_def[symmetric])
  then show "calculate_distance_factor (NpFloat d) sc
           = Inr (np_around (fl (exp (fl (- d / fl (2 * sc))))) 3)"
    unfolding q_def t_def .
  have u: "0 \<le> np_around (fl (exp q)) 3 \<and> np_around (fl (exp q)) 3 \<le> 1"
    by (rule np_around_unit[OF e(2,3)])
  from u show "0 \<le> np_around (fl (exp (fl (- d / fl (2 * sc))))) 3"
    unfolding q_def t_def by (rule conjunct1)
  from u show "np_around (fl (exp (fl (- d / fl (2 * sc))))) 3 \<le> 1"
    unfolding q_def t_def by (rule conjunct2)
qed

lemma network_bandwidth_finite:
  assumes "\<bar>up\<bar> \<le> DBL_MAX"
  shows "calculate_network_bandwidth n up
           = Inr (np_around (fl ((if n = 0 then 1 else fl (1 / of_int n)) * up)) 3)"
proof -
  have u: "\<not> is_inf up" using assms by (simp add: is_inf_def)
  have b: "\<bar>1 / of_int n :: real\<bar> \<le> 1" if "n \<noteq> 0"
  proof -
    have "1 \<le> \<bar>n\<bar>" using that by simp
    then have "(1::real) \<le> of_int \<bar>n\<bar>" by (simp only: of_int_1_le_iff)
    then show ?thesis by (simp add: abs_divide)
  qed
  have "- 1 \<le> (1 / of_int n :: real) \<and> (1 / of_int n :: real) \<le> 1" if "n \<noteq> 0"
    using b[OF that] by linarith
  then have "- 1 \<le> fl (1 / of_int n) \<and> fl (1 / of_int n) \<le> 1" if "n \<noteq> 0"
    using that fl_mono[of "- 1" "1 / of_int n"] fl_mono[of "1 / of_int n" 1] by simp
  then have "\<not> is_inf (fl (1 / of_int n))" if "n \<noteq> 0"
    using that by (intro not_is_inf_small) (simp add: abs_le_iff)
  then show ?thesis using u by (simp add: calculate_network_bandwidth_def fmul_finite)
qed

lemma throughput_in_range:
  assumes "1 / 2 ^ 1000 \<le> sc" "sc \<le> 2 ^ 1000" "0 \<le> d" "d \<le> DBL_MAX"
    "\<bar>up\<bar> \<le> DBL_MAX" "\<bar>ch\<bar> \<le> DBL_MAX"
  shows "get_ue_throughput sc (PyFloat d) n up ch req =
           Inr (min (np_around (fl (np_around (fl (exp (fl (- d / fl (2 * sc))))) 3 * ch)) 3)
                 (min (np_around (fl ((if n = 0 then 1 else fl (1 / of_int n)) * up)) 3) req))"
    and "get_ue_throughput sc (NpFloat d) n up ch req =
           Inr (min (np_around (fl (np_around (fl (exp (fl (- d / fl (2 * sc))))) 3 * ch)) 3)
                 (min (np_around (fl ((if n = 0 then 1 else fl (1 / of_int n)) * up)) 3) req))"
proof -
  define f where "f = np_around (fl (exp (fl (- d / fl (2 * sc))))) 3"
  note df = distance_factor_in_range[OF assms(1-4), folded f_def]
  have ffin: "\<not> is_inf f" using df(3,4) by (intro not_is_inf_small) simp
  have cfin: "\<not> is_inf ch" using assms(6) by (simp add: is_inf_def)
  have rb: "calculate_radio_bandwidth f ch = Inr (np_around (fl (f * ch)) 3)"
    using ffin cfin by (simp add: calculate_radio_bandwidth_def fmul_finite)
  note nb = network_bandwidth_finite[OF assms(5), of n]
  have "get_ue_throughput sc (PyFloat d) n up ch req =
           Inr (min (np_around (fl (f * ch)) 3)
                 (min (np_around (fl ((if n = 0 then 1 else fl (1 / of_int n)) * up)) 3) req))"
    using df(1) rb nb by (simp add: get_ue_throughput_def)
  then show "get_ue_throughput sc (PyFloat d) n up ch req =
           Inr (min (np_around (fl (np_around (fl (exp (fl (- d / fl (2 * sc))))) 3 * ch)) 3)
                 (min (np_around (fl ((if n = 0 then 1 else fl (1 / of_int n)) * up)) 3) req))"
    unfolding f_def .
  have "get_ue_throughput sc (NpFloat d) n up ch req =
           Inr (min (np_around (fl (f * ch)) 3)
                 (min (np_around (fl ((if n = 0 then 1 else fl (1 / of_int n)) * up)) 3) req))"
    using df(2) rb nb by (simp add: get_ue_throughput_def)
  then show "get_ue_throughput sc (NpFloat d) n up ch req =
           Inr (min (np_around (fl (np_around (fl (exp (fl (- d / fl (2 * sc))))) 3 * ch)) 3)
                 (min (np_around (fl ((if n = 0 then 1 else fl (1 / of_int n)) * up)) 3) req))"
    unfolding f_def .
qed




text \<open>
  Signal power. The square of a distance between \<open>2 ^ - 511\<close> and \<open>2 ^ 511\<close> is a normal
  double, and so is its reciprocal; the logarithm of the reciprocal is at most 1022 in
  magnitude, so that nothing overflows and \<open>round\<close> gets a finite number.
\<close>

lemma log10_bounds:
  assumes "1 / 2 ^ n \<le> q" "q \<le> 2 ^ n"
  shows "- real n \<le> log 10 q" "log 10 q \<le> real n"
proof -
  have p: "(0::real) < 1 / 2 ^ n" by simp
  have q: "0 < q" using p assms(1) by linarith
  have m: "(2::real) ^ n \<le> 10 ^ n" by (intro power_mono) simp_all
  have "q \<le> 10 powr real n" using assms(2) m by (simp add: powr_realpow)
  then show "log 10 q \<le> real n" using q by (simp add: log_le_iff)
  have "1 / (10::real) ^ n \<le> 1 / 2 ^ n" using m by (intro divide_left_mono) simp_all
  then have "10 powr (- real n) \<le> q"
    using assms(1) by (simp add: powr_minus powr_realpow inverse_eq_divide)
  then show "- real n \<le> log 10 q" using q by (simp add: le_log_iff)
qed

lemma fl_normal_range:
  assumes "1 / 2 ^ 1022 \<le> x" "x \<le> 2 ^ 1022"
  shows "1 / 2 ^ 1022 \<le> fl x" "fl x \<le> 2 ^ 1022" "0 < fl x" "\<not> is_inf (fl x)"
proof -
  show lo: "1 / 2 ^ 1022 \<le> fl x"
    using fl_mono[OF assms(1)] fl_inverse_power2[of 1022] by simp
  show hi: "fl x \<le> 2 ^ 1022"
    using fl_mono[OF assms(2)] fl_power2[of 1022] by simp
  have "(0::real) < 1 / 2 ^ 1022" by simp
  then show pos: "0 < fl x" using lo by linarith
  have "(2::real) ^ 1022 \<le> 2 ^ 1023" by (intro power_increasing) simp_all
  then show "\<not> is_inf (fl x)" using hi pos by (intro not_is_inf_small) simp
qed

lemma sig_power_in_range:
  assumes "1 / 2 ^ 511 \<le> \<bar>d\<bar>" "\<bar>d\<bar> \<le> 2 ^ 511"
  shows "get_ue_sig_power d
           = Inr (Some (rint (fl (fl (10 * fl (log 10 (fl (1 / fl (d\<^sup>2))))) / 10))))"
proof -
  have "(0::real) < 1 / 2 ^ 511" by simp
  then have d0: "d \<noteq> 0" using assms(1) by auto
  have "(2::real) ^ 511 \<le> 2 ^ 1023" by (intro power_increasing) simp_all
  then have dfin: "\<not> is_inf d" using assms(2) by (intro not_is_inf_small) simp
  have d2: "d\<^sup>2 = \<bar>d\<bar>\<^sup>2" by simp
  have "(1 / 2 ^ 511)\<^sup>2 \<le> \<bar>d\<bar>\<^sup>2" using assms(1) by (intro power_mono) simp_all
  then have slo: "1 / 2 ^ 1022 \<le> d\<^sup>2"
    unfolding d2 by (simp add: power_divide flip: power_mult)
  have "\<bar>d\<bar>\<^sup>2 \<le> (2 ^ 511)\<^sup>2" using assms(2) by (intro power_mono) simp_all
  then have shi: "d\<^sup>2 \<le> 2 ^ 1022" unfolding d2 by (simp flip: power_mult)
  define p where "p = fl (d\<^sup>2)"
  note p = fl_normal_range[OF slo shi, folded p_def]
  have mp: "math_pow d 2 = Inr p" using dfin p(4) by (simp add: math_pow_def p_def)
  have "1 / 2 ^ 1022 \<le> 1 / p" using p(2,3) by (intro divide_left_mono) simp_all
  moreover have "1 / p \<le> 2 ^ 1022"
  proof -
    have "1 / p \<le> 1 / (1 / 2 ^ 1022)" using p(1) by (intro divide_left_mono) simp_all
    then show ?thesis by simp
  qed
  ultimately have r: "1 / 2 ^ 1022 \<le> 1 / p" "1 / p \<le> 2 ^ 1022" by simp_all
  define q where "q = fl (1 / p)"
  note q = fl_normal_range[OF r, folded q_def]
  have td: "truediv 1 p = Inr q"
    unfolding q_def using p(3,4) by (intro truediv_finite) simp_all
  define l where "l = fl (log 10 q)"
  have ml: "math_log10 q = Inr l" using q(3,4) by (simp add: math_log10_def l_def)
  note lg = log10_bounds[OF q(1,2)]
  have l: "- 1022 \<le> l" "l \<le> 1022"
    unfolding l_def using fl_mono[OF lg(1)] fl_mono[OF lg(2)] by simp_all
  define x where "x = fl (10 * l)"
  have x: "- 10220 \<le> x" "x \<le> 10220"
    unfolding x_def using fl_mono[of "- 10220" "10 * l"] fl_mono[of "10 * l" 10220] l
    by simp_all
  then have xfin: "\<not> is_inf x" by (intro not_is_inf_small) simp
  define y where "y = fl (x / 10)"
  have dv: "truediv x 10 = Inr y"
    unfolding y_def using xfin by (intro truediv_finite) simp_all
  have y: "- 1022 \<le> y" "y \<le> 1022"
    unfolding y_def using fl_mono[of "- 1022" "x / 10"] fl_mono[of "x / 10" 1022] x
    by simp_all
  then have "\<not> is_inf y" by (intro not_is_inf_small) simp
  then have rd: "py_round y = Inr (rint y)" by (simp add: py_round_def)
  have "get_ue_sig_power d = Inr (Some (rint y))"
    using d0 mp td ml dv rd by (simp add: get_ue_sig_power_def x_def[symmetric])
  then show ?thesis unfolding y_def x_def l_def q_def p_def .
qed







section \<open>The reward\<close>

text \<open>
  C1. The handoff rows of the table and the two stay rows with equal SLA values are as the
  table gives them. For the action STAY (0) with differing SLA values the table promises
  the value 0, but the method returns no value: it raises \<open>UnboundLocalError\<close>, both when
  the SLA is gained and when it is lost.
\<close>

theorem reward_based_on_ue_state_stay_unbound:
  "reward_based_on_ue_state 0 0 1 = Inl UnboundLocalError
   \<and> reward_based_on_ue_state 0 1 0 = Inl UnboundLocalError
   \<and> reward_based_on_ue_state 1 0 0 = Inr (- 2)
   \<and> reward_based_on_ue_state 1 0 1 = Inr 3
   \<and> reward_based_on_ue_state 1 1 0 = Inr (- 4)
   \<and> reward_based_on_ue_state 1 1 1 = Inr (- 1)
   \<and> reward_based_on_ue_state 0 0 0 = Inr (- 1)
   \<and> reward_based_on_ue_state 0 1 1 = Inr 1"
  by (simp add: reward_based_on_ue_state_def)

section \<open>The small network, evaluated\<close>

lemma upt_0_2: "[0..<2] = [0, 1]"
  by (simp add: upt_rec numeral_2_eq_2)

lemma get_ue_app_example: "get_ue_app example_draw = Web"
proof -
  have h: "fl (of_int 500) = of_int 500" by (rule fl_int) simp
  have "np_around (1 / 2) 3 = fl (of_int 500 / 10 ^ 3)"
    by (rule np_around_eq[OF h h]) simp_all
  then have a: "np_around (1 / 2) 3 = 1 / 2" using fl_dyadic[of 1 1] by simp
  have "fl (5 / 8) \<le> fl (7 / 10)" by (rule fl_mono) simp
  then have "5 / 8 \<le> fl (7 / 10)" using fl_dyadic[of 5 3] by simp
  then show ?thesis using a by (simp add: get_ue_app_def example_draw_def)
qed

lemma example_draw_sel: "randint_x example_draw = 100" "randint_y example_draw = 100"
  by (simp_all add: example_draw_def)

lemma get_neighboring_aps_example:
  "get_neighboring_aps (100, 100) [100, 300] (Suc 0) =
     Inr \<lparr>within_grid = [(100, 100), (100, 300), (300, 100), (300, 300)], rest = []\<rparr>"
  by (simp add: get_neighboring_aps_def get_aps_in_grid_def get_interval_def py_index_def)

lemma get_ue_ap_example:
  "get_ue_ap (100, 100) [100, 300] (Suc 0) =
     Inr ((100, 100), [(100, 100), (100, 300), (300, 100), (300, 300)])"
  by (simp add: get_ue_ap_def get_neighboring_aps_example py_index_def
      get_closest_ap_location_def)

lemma get_ue_throughput_example:
  "get_ue_throughput 100 (NpFloat 0) 1 25 10 (1 / 4) = Inr (1 / 4)"
  by (simp add: get_ue_throughput_def calculate_distance_factor_def fdiv_finite
      math_exp_nonpos(1)[of 0] calculate_radio_bandwidth_def calculate_network_bandwidth_def
      fmul_finite Let_def)

lemma init_example:
  "StaticNetwork_init 1 4 100 1 (\<lambda>_. example_draw) = Inr example_network"
  by (simp add: StaticNetwork_init_def Let_def upt_0_2 place_aps_def
      instantiate_ues_def instantiate_ue_def get_ue_app_example get_ue_location_def
      get_random_location_def example_draw_sel get_ue_ap_example store_ap_def new_UE_def
      APPS_DICT_def update_ue_stats_def calculate_ue_throughput_def total_ues_def
      calculate_ue_sla_def get_ue_sla_def calculate_ue_signal_power_def get_ue_sig_power_def
      get_ue_throughput_example example_network_def example_ue_def eval_nat_numeral
      new_AP_def)

section \<open>Reset\<close>

lemma place_aps_ap_dict [simp]: "ap_dict (snd (place_aps s)) = ap_dict s"
  by (simp add: place_aps_def split: prod.splits)

lemma place_aps_ue_dict [simp]: "ue_dict (snd (place_aps s)) = ue_dict s"
  by (simp add: place_aps_def split: prod.splits)

lemma instantiate_ue_no_aps:
  "ap_dict s = None \<Longrightarrow>
     isl (fst (instantiate_ue s i d)) \<and> ap_dict (snd (instantiate_ue s i d)) = None
     \<and> ue_dict (snd (instantiate_ue s i d)) = ue_dict s"
  by (simp add: instantiate_ue_def Let_def split: sum.splits option.splits prod.splits)

lemma instantiate_ues_loop_no_aps:
  assumes n: "ap_dict s = None"
  shows "ap_dict (snd (instantiate_ues_loop ids rng ues s)) = None
     \<and> ue_dict (snd (instantiate_ues_loop ids rng ues s)) = ue_dict s
     \<and> (ids \<noteq> [] \<longrightarrow> isl (fst (instantiate_ues_loop ids rng ues s)))"
proof (cases ids)
  case Nil
  then show ?thesis using n by simp
next
  case (Cons i more_ids)
  obtain r s' where r: "instantiate_ue s i (rng i) = (r, s')"
    by (cases "instantiate_ue s i (rng i)")
  from instantiate_ue_no_aps[OF n, of i "rng i"] r
  have "isl r" "ap_dict s' = None" "ue_dict s' = ue_dict s" by simp_all
  then show ?thesis using Cons r by (cases r) simp_all
qed

lemma reset_network_dicts:
  "ap_dict (snd (reset_network s rng)) = None \<and> ue_dict (snd (reset_network s rng)) = None
   \<and> (0 < num_ues s \<longrightarrow> isl (fst (reset_network s rng)))"
proof -
  let ?s1 = "s\<lparr>ap_dict := None, ue_dict := None\<rparr>"
  let ?s2 = "snd (place_aps ?s1)"
  have n: "ap_dict ?s2 = None" "ue_dict ?s2 = None" by simp_all
  have nu: "num_ues ?s2 = num_ues s" by (simp add: place_aps_def split: prod.splits)
  have eq: "reset_network s rng =
     (case instantiate_ues ?s2 rng of
        (Inl e, s3) \<Rightarrow> (Inl e, s3) | (Inr ues, s3) \<Rightarrow> (Inr (), s3))"
    by (simp add: reset_network_def Let_def split: prod.splits)
  from instantiate_ues_loop_no_aps[OF n(1), of "[1..<Suc (num_ues ?s2)]" rng "[]"] n(2) nu
  show ?thesis
    unfolding eq instantiate_ues_def
    by (auto split: prod.splits sum.splits)
qed

text \<open>
  C2. \<open>reset_network\<close> does not re-establish a starting state. It sets \<open>_ap_dict\<close> and
  \<open>_ue_dict\<close> to \<open>None\<close> and never assigns them again (the constructor assigns the results
  of \<open>_place_aps\<close> and \<open>_instantiate_ues\<close>; the reset drops them). So after a reset, from
  any state, both dictionaries are \<open>None\<close> and every query raises. With at least one UE
  the reset itself raises: on the small network it raises \<open>TypeError\<close>, at
  \<open>self._ap_dict[current_ap_id]\<close>.
\<close>

theorem reset_network_loses_dictionaries:
  "ap_list (snd (reset_network s rng)) = Inl AttributeError
   \<and> ue_list (snd (reset_network s rng)) = Inl AttributeError
   \<and> ap_info (snd (reset_network s rng)) k = Inl TypeError
   \<and> ue_info (snd (reset_network s rng)) i = Inl TypeError
   \<and> StaticNetwork_init 1 4 100 1 (\<lambda>_. example_draw) = Inr example_network
   \<and> fst (reset_network example_network (\<lambda>_. example_draw)) = Inl TypeError"
proof -
  have "fst (reset_network example_network (\<lambda>_. example_draw)) = Inl TypeError"
    by (simp add: reset_network_def Let_def place_aps_def instantiate_ues_def
        instantiate_ue_def get_ue_app_example get_ue_location_def get_random_location_def
        example_draw_sel get_ue_ap_example example_network_def)
  then show ?thesis
    using reset_network_dicts[of s rng] init_example
    by (simp add: ap_list_def ue_list_def ap_info_def ue_info_def validate_ap_def
        validate_ue_def)
qed

section \<open>A handoff to an AP that does not exist\<close>

text \<open>
  C3. A handoff of an existing UE to an AP id that is not in the AP map raises
  \<open>KeyError\<close>, but not before the state has changed: \<open>handoff_to_ap\<close> takes the UE out of
  its current AP's set and decrements that AP's counter, and looks the new AP up only
  afterwards. On the small network, after \<open>perform_handoff(1, 99)\<close> has raised, AP 1 holds
  no UE and counts none, while UE 1 still names AP 1 as its AP.
\<close>

theorem perform_handoff_unknown_ap_mutates:
  "StaticNetwork_init 1 4 100 1 (\<lambda>_. example_draw) = Inr example_network
   \<and> map_sum id (\<lambda>a. (n_ues a Web, ues_meeting_sla a Web)) (ap_info example_network 1)
       = Inr ({1}, 1)
   \<and> ap_info example_network 99 = Inl KeyError
   \<and> fst (perform_handoff example_network 1 99) = Inl KeyError
   \<and> map_sum id (\<lambda>a. (n_ues a Web, ues_meeting_sla a Web))
        (ap_info (snd (perform_handoff example_network 1 99)) 1) = Inr ({}, 0)
   \<and> map_sum id (\<lambda>u. (ap u, sla u))
        (ue_info (snd (perform_handoff example_network 1 99)) 1) = Inr (1, 1)"
  using init_example
  by (simp add: perform_handoff_def validate_ue_def validate_ap_def handoff_to_ap_def
      store_ap_def store_ue_def Let_def example_network_def example_ue_def new_AP_def
      ap_info_def ue_info_def)

section \<open>Keeping the maps consistent\<close>

lemma meeting_upd_notin: "i \<notin> S \<Longrightarrow> meeting (U(i := x)) S = meeting U S"
  by (auto simp: meeting_def)

lemma meeting_insert_new:
  "i \<notin> S \<Longrightarrow> meeting (U(i \<mapsto> u)) (insert i S) =
     (if sla u = 1 then insert i (meeting U S) else meeting U S)"
  by (auto simp: meeting_def)

lemma meeting_remove:
  "meeting (U(i := None)) (S - {i}) = meeting U S - {i}"
  by (auto simp: meeting_def)

lemma meeting_subset: "meeting U S \<subseteq> S"
  by (auto simp: meeting_def)

lemma finite_meeting: "finite S \<Longrightarrow> finite (meeting U S)"
  by (rule finite_subset[OF meeting_subset])

lemma consistent_add:
  assumes c: "consistent A U" and new: "U i = None" and k: "A k = Some a"
    and u: "ue_id u = i" "ap u = k" "sla u = 0 \<or> sla u = 1"
    and a': "ap_id a' = ap_id a"
      "n_ues a' = (n_ues a)(app u := insert i (n_ues a (app u)))"
      "ues_meeting_sla a' = (ues_meeting_sla a)(app u := ues_meeting_sla a (app u) + sla u)"
  shows "consistent (A(k \<mapsto> a')) (U(i \<mapsto> u))"
proof -
  have notin: "i \<notin> n_ues b c" if "A j = Some b" for j b c
    using c that new unfolding consistent_def by fastforce
  have fin: "finite (n_ues b c)" if "A j = Some b" for j b c
    using c that unfolding consistent_def by blast
  have cnt: "ues_meeting_sla b c = int (card (meeting U (n_ues b c)))" if "A j = Some b" for j b c
    using c that unfolding consistent_def by blast
  have im: "i \<notin> meeting U (n_ues a (app u))"
    using notin[OF k] meeting_subset by blast
  have p1: "\<forall>j b. (A(k \<mapsto> a')) j = Some b \<longrightarrow> ap_id b = j \<and> (\<forall>c. finite (n_ues b c))"
    using c k a' unfolding consistent_def by (auto split: if_splits)
  have p2: "\<forall>j v. (U(i \<mapsto> u)) j = Some v \<longrightarrow>
          ue_id v = j \<and> (sla v = 0 \<or> sla v = 1)
          \<and> (\<exists>b. (A(k \<mapsto> a')) (ap v) = Some b \<and> j \<in> n_ues b (app v))"
  proof (intro allI impI)
    fix j v assume h: "(U(i \<mapsto> u)) j = Some v"
    show "ue_id v = j \<and> (sla v = 0 \<or> sla v = 1)
          \<and> (\<exists>b. (A(k \<mapsto> a')) (ap v) = Some b \<and> j \<in> n_ues b (app v))"
    proof (cases "j = i")
      case True
      then show ?thesis using h u a' by auto
    next
      case False
      then have "U j = Some v" using h by simp
      then have "ue_id v = j" "sla v = 0 \<or> sla v = 1"
        and "\<exists>b. A (ap v) = Some b \<and> j \<in> n_ues b (app v)"
        using c unfolding consistent_def by blast+
      then show ?thesis using k a' by (cases "ap v = k") auto
    qed
  qed
  have p3: "\<forall>j b c x. (A(k \<mapsto> a')) j = Some b \<longrightarrow> x \<in> n_ues b c \<longrightarrow>
          (\<exists>v. (U(i \<mapsto> u)) x = Some v \<and> ap v = j \<and> app v = c)"
  proof (intro allI impI)
    fix j b c x assume h: "(A(k \<mapsto> a')) j = Some b" "x \<in> n_ues b c"
    show "\<exists>v. (U(i \<mapsto> u)) x = Some v \<and> ap v = j \<and> app v = c"
    proof (cases "x = i")
      case True
      have "j = k \<and> c = app u"
      proof (rule ccontr)
        assume n: "\<not> (j = k \<and> c = app u)"
        show False
        proof (cases "j = k")
          case True
          then have "b = a'" "c \<noteq> app u" using h n by auto
          then have "x \<in> n_ues a c" using h a' by simp
          then show False using notin[OF k] \<open>x = i\<close> by blast
        next
          case False
          then have "A j = Some b" using h by simp
          then show False using notin h \<open>x = i\<close> by blast
        qed
      qed
      then show ?thesis using True u by simp
    next
      case False
      have "\<exists>b0. A j = Some b0 \<and> x \<in> n_ues b0 c"
        using h k a' False by (cases "j = k") (auto split: if_splits)
      then have "\<exists>v. U x = Some v \<and> ap v = j \<and> app v = c"
        using c unfolding consistent_def by blast
      then show ?thesis using False by simp
    qed
  qed
  have p4: "\<forall>j b c. (A(k \<mapsto> a')) j = Some b \<longrightarrow>
          ues_meeting_sla b c = int (card (meeting (U(i \<mapsto> u)) (n_ues b c)))"
  proof (intro allI impI)
    fix j b c assume h: "(A(k \<mapsto> a')) j = Some b"
    show "ues_meeting_sla b c = int (card (meeting (U(i \<mapsto> u)) (n_ues b c)))"
    proof (cases "j = k \<and> c = app u")
      case True
      then have b: "b = a'" using h by simp
      have "meeting (U(i \<mapsto> u)) (n_ues a' (app u)) =
              (if sla u = 1 then insert i (meeting U (n_ues a (app u)))
               else meeting U (n_ues a (app u)))"
        using meeting_insert_new[of i "n_ues a (app u)" U u] notin[OF k] a' by simp
      moreover have "finite (meeting U (n_ues a (app u)))"
        using fin[OF k] by (rule finite_meeting)
      ultimately show ?thesis
        using True b a' cnt[OF k, of "app u"] im u(3) by auto
    next
      case False
      obtain b0 where b0: "A j = Some b0" "n_ues b c = n_ues b0 c"
        "ues_meeting_sla b c = ues_meeting_sla b0 c"
        using h k a' False by (cases "j = k") (auto split: if_splits)
      have "meeting (U(i \<mapsto> u)) (n_ues b0 c) = meeting U (n_ues b0 c)"
        using notin[OF b0(1)] by (rule meeting_upd_notin)
      then show ?thesis using b0 cnt[OF b0(1)] by simp
    qed
  qed
  show ?thesis unfolding consistent_def using p1 p2 p3 p4 by blast
qed

lemma consistent_remove:
  assumes c: "consistent A U" and ui: "U i = Some u" and k: "A (ap u) = Some a"
    and a': "ap_id a' = ap_id a"
      "n_ues a' = (n_ues a)(app u := n_ues a (app u) - {i})"
      "ues_meeting_sla a' = (ues_meeting_sla a)(app u := ues_meeting_sla a (app u) - sla u)"
  shows "consistent (A(ap u \<mapsto> a')) (U(i := None))"
proof -
  have only: "j = ap u \<and> cl = app u" if "A j = Some b" "i \<in> n_ues b cl" for j b cl
    using c that ui unfolding consistent_def by fastforce
  have fin: "finite (n_ues b cl)" if "A j = Some b" for j b cl
    using c that unfolding consistent_def by blast
  have cnt: "ues_meeting_sla b cl = int (card (meeting U (n_ues b cl)))" if "A j = Some b" for j b cl
    using c that unfolding consistent_def by blast
  have uu: "ue_id u = i" "sla u = 0 \<or> sla u = 1" "i \<in> n_ues a (app u)"
    using c ui k unfolding consistent_def by fastforce+
  have p1: "\<forall>j b. (A(ap u \<mapsto> a')) j = Some b \<longrightarrow> ap_id b = j \<and> (\<forall>c. finite (n_ues b c))"
    using c k a' unfolding consistent_def by (auto split: if_splits)
  have p2: "\<forall>j v. (U(i := None)) j = Some v \<longrightarrow>
          ue_id v = j \<and> (sla v = 0 \<or> sla v = 1)
          \<and> (\<exists>b. (A(ap u \<mapsto> a')) (ap v) = Some b \<and> j \<in> n_ues b (app v))"
  proof (intro allI impI)
    fix j v assume h: "(U(i := None)) j = Some v"
    then have ji: "j \<noteq> i" and uj: "U j = Some v" by (auto split: if_splits)
    then have "ue_id v = j" "sla v = 0 \<or> sla v = 1"
      and "\<exists>b. A (ap v) = Some b \<and> j \<in> n_ues b (app v)"
      using c unfolding consistent_def by blast+
    then show "ue_id v = j \<and> (sla v = 0 \<or> sla v = 1)
          \<and> (\<exists>b. (A(ap u \<mapsto> a')) (ap v) = Some b \<and> j \<in> n_ues b (app v))"
      using k a' ji by (cases "ap v = ap u") auto
  qed
  have p3: "\<forall>j b cl x. (A(ap u \<mapsto> a')) j = Some b \<longrightarrow> x \<in> n_ues b cl \<longrightarrow>
          (\<exists>v. (U(i := None)) x = Some v \<and> ap v = j \<and> app v = cl)"
  proof (intro allI impI)
    fix j b cl x assume h: "(A(ap u \<mapsto> a')) j = Some b" "x \<in> n_ues b cl"
    have ex: "\<exists>b0. A j = Some b0 \<and> x \<in> n_ues b0 cl"
      using h k a' by (cases "j = ap u") (auto split: if_splits)
    have "x \<noteq> i"
    proof
      assume xi: "x = i"
      with ex only have "j = ap u" "cl = app u" by blast+
      with h a' xi show False by simp
    qed
    moreover have "\<exists>v. U x = Some v \<and> ap v = j \<and> app v = cl"
      using ex c unfolding consistent_def by blast
    ultimately show "\<exists>v. (U(i := None)) x = Some v \<and> ap v = j \<and> app v = cl" by simp
  qed
  have p4: "\<forall>j b cl. (A(ap u \<mapsto> a')) j = Some b \<longrightarrow>
          ues_meeting_sla b cl = int (card (meeting (U(i := None)) (n_ues b cl)))"
  proof (intro allI impI)
    fix j b cl assume h: "(A(ap u \<mapsto> a')) j = Some b"
    show "ues_meeting_sla b cl = int (card (meeting (U(i := None)) (n_ues b cl)))"
    proof (cases "j = ap u \<and> cl = app u")
      case True
      then have b: "b = a'" using h by simp
      have m: "meeting (U(i := None)) (n_ues a' (app u)) = meeting U (n_ues a (app u)) - {i}"
        using meeting_remove[of U i "n_ues a (app u)"] a' by simp
      have f: "finite (meeting U (n_ues a (app u)))"
        using fin[OF k] by (rule finite_meeting)
      have mem: "i \<in> meeting U (n_ues a (app u)) \<longleftrightarrow> sla u = 1"
        using ui uu by (auto simp: meeting_def)
      show ?thesis
      proof (cases "sla u = 1")
        case s1: True
        then have "card (meeting U (n_ues a (app u))) > 0"
          using mem f by (auto simp: card_gt_0_iff)
        then show ?thesis
          using True b a' cnt[OF k, of "app u"] m mem s1 f by (simp add: of_nat_diff)
      next
        case s0: False
        then have "sla u = 0" using uu by simp
        then show ?thesis
          using True b a' cnt[OF k, of "app u"] m mem s0 by simp
      qed
    next
      case False
      obtain b0 where b0: "A j = Some b0" "n_ues b cl = n_ues b0 cl"
        "ues_meeting_sla b cl = ues_meeting_sla b0 cl"
        using h k a' False by (cases "j = ap u") (auto split: if_splits)
      have "i \<notin> n_ues b0 cl" using only[OF b0(1)] False by blast
      then have "meeting (U(i := None)) (n_ues b0 cl) = meeting U (n_ues b0 cl)"
        by (rule meeting_upd_notin)
      then show ?thesis using b0 cnt[OF b0(1)] by simp
    qed
  qed
  show ?thesis unfolding consistent_def using p1 p2 p3 p4 by blast
qed

section \<open>What the steps of the simulator do\<close>

lemma get_ue_sla_01: "get_ue_sla t r = 0 \<or> get_ue_sla t r = 1"
  by (simp add: get_ue_sla_def)

lemma update_ue_stats_frame:
  assumes "update_ue_stats s u a = (r, u', a', s')"
  shows "ue_id u' = ue_id u \<and> ap u' = ap u \<and> app u' = app u
       \<and> UE.location u' = UE.location u \<and> neighboring_aps u' = neighboring_aps u
       \<and> required_bandwidth u' = required_bandwidth u
       \<and> ap_id a' = ap_id a \<and> AP.location a' = AP.location a \<and> n_ues a' = n_ues a
       \<and> ap_dict s' = ap_dict s \<and> ue_dict s' = ue_dict s
       \<and> location_to_ap_lookup s' = location_to_ap_lookup s
       \<and> aps_per_axis s' = aps_per_axis s \<and> explore_radius s' = explore_radius s
       \<and> scale s' = scale s \<and> num_ues s' = num_ues s"
  using assms
  by (auto simp: update_ue_stats_def Let_def calculate_ue_sla_def
      split: sum.splits prod.splits)

lemma update_ue_stats_ok:
  assumes "update_ue_stats s u a = (Inr x, u', a', s')"
  shows "(sla u' = 0 \<or> sla u' = 1)
       \<and> ues_meeting_sla a' = (ues_meeting_sla a)(app u := ues_meeting_sla a (app u) + sla u')"
  using assms
  by (auto simp: update_ue_stats_def Let_def calculate_ue_sla_def get_ue_sla_def
      split: sum.splits prod.splits)

lemma neighboring_ap_ids_lookup:
  "location_to_ap_lookup s = location_to_ap_lookup s' \<Longrightarrow>
     neighboring_ap_ids s cur locs = neighboring_ap_ids s' cur locs"
  by (induction locs) (auto split: option.splits sum.splits)

lemma store_ap_fields [simp]:
  "ap_dict (store_ap s k a) = map_option (AList.update k a) (ap_dict s)"
  "ue_dict (store_ap s k a) = ue_dict s"
  "location_to_ap_lookup (store_ap s k a) = location_to_ap_lookup s"
  "aps_per_axis (store_ap s k a) = aps_per_axis s"
  "explore_radius (store_ap s k a) = explore_radius s"
  "scale (store_ap s k a) = scale s"
  "num_ues (store_ap s k a) = num_ues s"
  by (simp_all add: store_ap_def)

lemma store_ue_fields [simp]:
  "ue_dict (store_ue s k u) = map_option (AList.update k u) (ue_dict s)"
  "ap_dict (store_ue s k u) = ap_dict s"
  "location_to_ap_lookup (store_ue s k u) = location_to_ap_lookup s"
  "aps_per_axis (store_ue s k u) = aps_per_axis s"
  "explore_radius (store_ue s k u) = explore_radius s"
  "scale (store_ue s k u) = scale s"
  "num_ues (store_ue s k u) = num_ues s"
  by (simp_all add: store_ue_def)

text \<open>What a successful run of the loop body has done.\<close>

lemma instantiate_ue_Inr:
  assumes run: "instantiate_ue s i d = (Inr u, s')" and aps: "ap_dict s = Some aps"
  shows "\<exists>a a' nb cl.
       map_of aps (ap u) = Some a
     \<and> ap_dict s' = Some (AList.update (ap u) a' aps)
     \<and> ue_dict s' = ue_dict s
     \<and> location_to_ap_lookup s' = location_to_ap_lookup s
     \<and> aps_per_axis s' = aps_per_axis s \<and> explore_radius s' = explore_radius s
     \<and> scale s' = scale s \<and> num_ues s' = num_ues s
     \<and> ue_id u = i \<and> (sla u = 0 \<or> sla u = 1)
     \<and> ap_id a' = ap_id a \<and> AP.location a' = AP.location a
     \<and> n_ues a' = (n_ues a)(app u := insert i (n_ues a (app u)))
     \<and> ues_meeting_sla a' = (ues_meeting_sla a)(app u := ues_meeting_sla a (app u) + sla u)
     \<and> get_neighboring_aps (UE.location u) (aps_per_axis s) (explore_radius s) = Inr nb
     \<and> get_closest_ap_location (within_grid nb) (UE.location u) = Inr cl
     \<and> map_of (location_to_ap_lookup s) cl = Some (ap u)
     \<and> neighboring_ap_ids s cl (within_grid nb @ rest nb) = Inr (neighboring_aps u)"
proof -
  let ?c = "get_ue_app d"
  let ?s1 = "s\<lparr>ue_app_stats := (ue_app_stats s)(?c := ue_app_stats s ?c + 1)\<rparr>"
  from run obtain loc where loc: "get_ue_location ?c (scale s) (aps_per_axis s) d = Inr loc"
    by (auto simp: instantiate_ue_def Let_def split: sum.splits)
  from run loc obtain cl nbs where ua: "get_ue_ap loc (aps_per_axis s) (explore_radius s) = Inr (cl, nbs)"
    by (auto simp: instantiate_ue_def Let_def split: sum.splits)
  from ua obtain nb where nb: "get_neighboring_aps loc (aps_per_axis s) (explore_radius s) = Inr nb"
    "get_closest_ap_location (within_grid nb) loc = Inr cl" "nbs = within_grid nb @ rest nb"
    by (auto simp: get_ue_ap_def bindE_eq_Inr)
  from run loc ua obtain k where k: "map_of (location_to_ap_lookup s) cl = Some k"
    by (auto simp: instantiate_ue_def Let_def split: option.splits)
  from run loc ua k aps obtain a where a: "map_of aps k = Some a"
    by (auto simp: instantiate_ue_def Let_def split: option.splits)
  let ?a1 = "a\<lparr>n_ues := (n_ues a)(?c := insert i (n_ues a ?c))\<rparr>"
  let ?s2 = "store_ap ?s1 k ?a1"
  from run loc ua k aps a obtain ids where ids: "neighboring_ap_ids ?s2 cl nbs = Inr ids"
    by (auto simp: instantiate_ue_def Let_def split: sum.splits)
  let ?u0 = "new_UE i k loc ?c (APPS_DICT ?c) ids"
  obtain r u1 a2 s3 where st: "update_ue_stats ?s2 ?u0 ?a1 = (r, u1, a2, s3)"
    by (cases "update_ue_stats ?s2 ?u0 ?a1") auto
  from run loc ua k aps a ids st have res: "r = Inr ()" "u = u1" "s' = store_ap s3 k a2"
    by (auto simp: instantiate_ue_def Let_def split: sum.splits)
  note fr = update_ue_stats_frame[OF st]
  note ok = update_ue_stats_ok[OF st[unfolded res(1)]]
  have u0: "ue_id ?u0 = i" "ap ?u0 = k" "app ?u0 = ?c" "UE.location ?u0 = loc"
    "neighboring_aps ?u0 = ids"
    by (simp_all add: new_UE_def)
  have ids': "neighboring_ap_ids s cl nbs = Inr ids"
    using ids neighboring_ap_ids_lookup[of s ?s2 cl nbs] by simp
  have d3: "ap_dict s3 = Some (AList.update k ?a1 aps)"
    using fr aps by simp
  have upd: "AList.update k a2 (AList.update k ?a1 aps) = AList.update k a2 aps"
    by simp
  show ?thesis
    apply (rule exI[of _ a], rule exI[of _ a2], rule exI[of _ nb], rule exI[of _ cl])
    using fr ok u0 res a nb k ids' d3 upd aps
    by (simp add: )
qed

lemma fetch_neighboring_aps_cong:
  assumes "location_to_ap_lookup s = location_to_ap_lookup s'"
    "aps_per_axis s = aps_per_axis s'" "explore_radius s = explore_radius s'"
    "UE.location u = UE.location u'" "AP.location a = AP.location a'"
  shows "fetch_neighboring_aps s u a = fetch_neighboring_aps s' u' a'"
proof -
  have "neighboring_ap_ids s = neighboring_ap_ids s'"
    using neighboring_ap_ids_lookup[OF assms(1)] by (intro ext)
  then show ?thesis using assms by (simp add: fetch_neighboring_aps_def)
qed

text \<open>What a call of \<open>perform_handoff\<close> that returns has done.\<close>

lemma perform_handoff_Inr:
  assumes run: "perform_handoff s i k = (Inr r, s')"
  shows "(\<not> DONE r \<and> s' = s \<and> (\<exists>u. validate_ue s i = Inr u \<and> ap u = k))
     \<or> (\<exists>ues aps u a b u' a' b'.
         ue_dict s = Some ues \<and> ap_dict s = Some aps
       \<and> map_of ues i = Some u \<and> map_of aps (ap u) = Some a \<and> ap u \<noteq> k
       \<and> map_of aps k = Some b \<and> ue_id u \<in> n_ues a (app u)
       \<and> ap_dict s' = Some (AList.update k b' (AList.update (ap u) a' aps))
       \<and> ue_dict s' = Some (AList.update i u' ues)
       \<and> location_to_ap_lookup s' = location_to_ap_lookup s
       \<and> aps_per_axis s' = aps_per_axis s \<and> explore_radius s' = explore_radius s
       \<and> scale s' = scale s \<and> num_ues s' = num_ues s
       \<and> ap_id a' = ap_id a \<and> AP.location a' = AP.location a
       \<and> n_ues a' = (n_ues a)(app u := n_ues a (app u) - {ue_id u})
       \<and> ues_meeting_sla a' = (ues_meeting_sla a)(app u := ues_meeting_sla a (app u) - sla u)
       \<and> ap_id b' = ap_id b \<and> AP.location b' = AP.location b
       \<and> n_ues b' = (n_ues b)(app u := insert (ue_id u) (n_ues b (app u)))
       \<and> ues_meeting_sla b' = (ues_meeting_sla b)(app u := ues_meeting_sla b (app u) + sla u')
       \<and> ue_id u' = ue_id u \<and> ap u' = k \<and> app u' = app u
       \<and> UE.location u' = UE.location u \<and> (sla u' = 0 \<or> sla u' = 1)
       \<and> fetch_neighboring_aps s u' b' = Inr (neighboring_aps u')
       \<and> r = \<lparr>DONE = True, UE = Some u', OLD_AP = Some a', NEW_AP = Some b'\<rparr>)"
proof -
  from run obtain u where vu: "validate_ue s i = Inr u"
    by (auto simp: perform_handoff_def split: sum.splits)
  then obtain ues where ues: "ue_dict s = Some ues" "map_of ues i = Some u"
    by (auto simp: validate_ue_def split: option.splits)
  from run vu obtain aps where aps: "ap_dict s = Some aps"
    by (auto simp: perform_handoff_def split: option.splits)
  from run vu aps obtain a where a: "map_of aps (ap u) = Some a"
    by (auto simp: perform_handoff_def split: option.splits)
  show ?thesis
  proof (cases "ap u = k")
    case True
    then show ?thesis using run vu aps a by (auto simp: perform_handoff_def)
  next
    case False
    then have h: "handoff_to_ap s (i, u) (ap u, a) k = (Inr r, s')"
      using run vu aps a by (simp add: perform_handoff_def)
    have mem: "ue_id u \<in> n_ues a (app u)"
      using h by (auto simp: handoff_to_ap_def split: if_splits)
    let ?a2 = "a\<lparr>n_ues := (n_ues a)(app u := n_ues a (app u) - {ue_id u}),
                 ues_meeting_sla := (ues_meeting_sla a)
                    (app u := ues_meeting_sla a (app u) - sla u)\<rparr>"
    let ?s1 = "store_ap s (ap u) ?a2"
    from h mem obtain b where vb: "validate_ap ?s1 k = Inr b"
      by (auto simp: handoff_to_ap_def Let_def split: sum.splits)
    then have b: "map_of aps k = Some b"
      using aps False by (auto simp: validate_ap_def update_conv' split: option.splits)
    let ?u1 = "u\<lparr>ap := k\<rparr>"
    let ?b1 = "b\<lparr>n_ues := (n_ues b)(app u := insert (ue_id u) (n_ues b (app u)))\<rparr>"
    let ?s2 = "store_ap (store_ue ?s1 i ?u1) k ?b1"
    from h mem vb obtain ids where ids: "fetch_neighboring_aps ?s2 ?u1 ?b1 = Inr ids"
      by (auto simp: handoff_to_ap_def Let_def split: sum.splits)
    let ?u2 = "?u1\<lparr>neighboring_aps := ids\<rparr>"
    obtain x u3 b2 s3 where st: "update_ue_stats ?s2 ?u2 ?b1 = (x, u3, b2, s3)"
      by (cases "update_ue_stats ?s2 ?u2 ?b1") auto
    from h mem vb ids st have res: "x = Inr ()"
      "s' = store_ap (store_ue s3 i u3) k b2"
      "r = \<lparr>DONE = True, UE = Some u3, OLD_AP = Some ?a2, NEW_AP = Some b2\<rparr>"
      by (auto simp: handoff_to_ap_def Let_def split: sum.splits)
    note fr = update_ue_stats_frame[OF st]
    note ok = update_ue_stats_ok[OF st[unfolded res(1)]]
    have fe: "fetch_neighboring_aps s u3 b2 = Inr (neighboring_aps u3)"
    proof -
      have "fetch_neighboring_aps s u3 b2 = fetch_neighboring_aps ?s2 ?u1 ?b1"
        using fr by (intro fetch_neighboring_aps_cong) simp_all
      then show ?thesis using ids fr by simp
    qed
    have d: "ap_dict s' = Some (AList.update k b2 (AList.update (ap u) ?a2 aps))"
      "ue_dict s' = Some (AList.update i u3 ues)"
      using res fr aps ues by simp_all
    have "\<exists>ues aps u a b u' a' b'.
         ue_dict s = Some ues \<and> ap_dict s = Some aps
       \<and> map_of ues i = Some u \<and> map_of aps (ap u) = Some a \<and> ap u \<noteq> k
       \<and> map_of aps k = Some b \<and> ue_id u \<in> n_ues a (app u)
       \<and> ap_dict s' = Some (AList.update k b' (AList.update (ap u) a' aps))
       \<and> ue_dict s' = Some (AList.update i u' ues)
       \<and> location_to_ap_lookup s' = location_to_ap_lookup s
       \<and> aps_per_axis s' = aps_per_axis s \<and> explore_radius s' = explore_radius s
       \<and> scale s' = scale s \<and> num_ues s' = num_ues s
       \<and> ap_id a' = ap_id a \<and> AP.location a' = AP.location a
       \<and> n_ues a' = (n_ues a)(app u := n_ues a (app u) - {ue_id u})
       \<and> ues_meeting_sla a' = (ues_meeting_sla a)(app u := ues_meeting_sla a (app u) - sla u)
       \<and> ap_id b' = ap_id b \<and> AP.location b' = AP.location b
       \<and> n_ues b' = (n_ues b)(app u := insert (ue_id u) (n_ues b (app u)))
       \<and> ues_meeting_sla b' = (ues_meeting_sla b)(app u := ues_meeting_sla b (app u) + sla u')
       \<and> ue_id u' = ue_id u \<and> ap u' = k \<and> app u' = app u
       \<and> UE.location u' = UE.location u \<and> (sla u' = 0 \<or> sla u' = 1)
       \<and> fetch_neighboring_aps s u' b' = Inr (neighboring_aps u')
       \<and> r = \<lparr>DONE = True, UE = Some u', OLD_AP = Some a', NEW_AP = Some b'\<rparr>"
      apply (rule exI[of _ ues], rule exI[of _ aps], rule exI[of _ u], rule exI[of _ a],
          rule exI[of _ b], rule exI[of _ u3], rule exI[of _ ?a2], rule exI[of _ b2])
      using ues aps a False b mem d fr ok fe res(2,3)
      by simp
    then show ?thesis by blast
  qed
qed

section \<open>The invariant\<close>

lemma closest_ap_loop_min:
  "m = get_ue_ap_distance c0 ue \<Longrightarrow>
     closest_ap_loop xs ue c0 m \<in> insert c0 (set xs)
   \<and> get_ue_ap_distance (closest_ap_loop xs ue c0 m) ue \<le> m
   \<and> (\<forall>b \<in> set xs. get_ue_ap_distance (closest_ap_loop xs ue c0 m) ue
                       \<le> get_ue_ap_distance b ue)"
proof (induction xs arbitrary: c0 m)
  case Nil
  then show ?case by simp
next
  case (Cons x xs)
  show ?case
  proof (cases "get_ue_ap_distance x ue < m")
    case True
    from Cons.IH[of "get_ue_ap_distance x ue" x] True show ?thesis by auto
  next
    case False
    from Cons.IH[OF Cons.prems] False show ?thesis by auto
  qed
qed

lemma get_closest_ap_location_min:
  assumes "get_closest_ap_location xs ue = Inr c"
  shows "c \<in> set xs \<and> (\<forall>b \<in> set xs. get_ue_ap_distance c ue \<le> get_ue_ap_distance b ue)"
proof (cases xs)
  case Nil
  then show ?thesis using assms by (simp add: get_closest_ap_location_def py_index_def)
next
  case (Cons x ys)
  then have c: "c = closest_ap_loop ys ue x (get_ue_ap_distance x ue)"
    using assms by (simp add: get_closest_ap_location_def py_index_def)
  from closest_ap_loop_min[of "get_ue_ap_distance x ue" x ue ys] c Cons
  show ?thesis by auto
qed

lemma aps_of_Some: "ap_dict s = Some aps \<Longrightarrow> aps_of s = map_of aps"
  by (simp add: aps_of_def)

lemma ues_of_Some: "ue_dict s = Some ues \<Longrightarrow> ues_of s = map_of ues"
  by (simp add: ues_of_def)

lemma lookup_ok_step:
  assumes "lookup_ok s" "location_to_ap_lookup s' = location_to_ap_lookup s"
    and "\<And>k a. aps_of s k = Some a \<Longrightarrow> \<exists>a1. aps_of s' k = Some a1 \<and> AP.location a1 = AP.location a"
  shows "lookup_ok s'"
  using assms unfolding lookup_ok_def by metis

lemma neighbors_ok_step:
  assumes n: "neighbors_ok s U" and fr: "location_to_ap_lookup s' = location_to_ap_lookup s"
    "aps_per_axis s' = aps_per_axis s" "explore_radius s' = explore_radius s"
    and loc: "\<And>k a. aps_of s k = Some a \<Longrightarrow> \<exists>a1. aps_of s' k = Some a1 \<and> AP.location a1 = AP.location a"
    and new: "\<exists>a. aps_of s' (ap u) = Some a \<and> fetch_neighboring_aps s' u a = Inr (neighboring_aps u)"
  shows "neighbors_ok s' (U(i \<mapsto> u))"
  unfolding neighbors_ok_def
proof (intro allI impI)
  fix j v assume h: "(U(i \<mapsto> u)) j = Some v"
  show "\<exists>a. aps_of s' (ap v) = Some a \<and> fetch_neighboring_aps s' v a = Inr (neighboring_aps v)"
  proof (cases "j = i")
    case True
    then show ?thesis using h new by simp
  next
    case False
    then have "U j = Some v" using h by simp
    then obtain a where a: "aps_of s (ap v) = Some a"
      "fetch_neighboring_aps s v a = Inr (neighboring_aps v)"
      using n unfolding neighbors_ok_def by blast
    from loc[OF a(1)] obtain a1 where a1: "aps_of s' (ap v) = Some a1"
      "AP.location a1 = AP.location a" by blast
    have "fetch_neighboring_aps s' v a1 = fetch_neighboring_aps s v a"
      using fr a1 by (intro fetch_neighboring_aps_cong) simp_all
    then show ?thesis using a a1 by simp
  qed
qed

lemma closest_ok_step:
  assumes n: "closest_ok s U" and fr:
    "aps_per_axis s' = aps_per_axis s" "explore_radius s' = explore_radius s"
    and loc: "\<And>k a. aps_of s k = Some a \<Longrightarrow> \<exists>a1. aps_of s' k = Some a1 \<and> AP.location a1 = AP.location a"
    and new: "\<exists>a nb. aps_of s' (ap u) = Some a
           \<and> get_neighboring_aps (UE.location u) (aps_per_axis s') (explore_radius s') = Inr nb
           \<and> AP.location a \<in> set (within_grid nb)
           \<and> (\<forall>b \<in> set (within_grid nb).
                 get_ue_ap_distance (AP.location a) (UE.location u)
                   \<le> get_ue_ap_distance b (UE.location u))"
  shows "closest_ok s' (U(i \<mapsto> u))"
  unfolding closest_ok_def
proof (intro allI impI)
  fix j v assume h: "(U(i \<mapsto> u)) j = Some v"
  show "\<exists>a nb. aps_of s' (ap v) = Some a
           \<and> get_neighboring_aps (UE.location v) (aps_per_axis s') (explore_radius s') = Inr nb
           \<and> AP.location a \<in> set (within_grid nb)
           \<and> (\<forall>b \<in> set (within_grid nb).
                 get_ue_ap_distance (AP.location a) (UE.location v)
                   \<le> get_ue_ap_distance b (UE.location v))"
  proof (cases "j = i")
    case True
    then show ?thesis using h new by simp
  next
    case False
    then have "U j = Some v" using h by simp
    then obtain a nb where a: "aps_of s (ap v) = Some a"
      "get_neighboring_aps (UE.location v) (aps_per_axis s) (explore_radius s) = Inr nb"
      "AP.location a \<in> set (within_grid nb)"
      "\<forall>b \<in> set (within_grid nb).
                 get_ue_ap_distance (AP.location a) (UE.location v)
                   \<le> get_ue_ap_distance b (UE.location v)"
      using n unfolding closest_ok_def by blast
    from loc[OF a(1)] obtain a1 where a1: "aps_of s' (ap v) = Some a1"
      "AP.location a1 = AP.location a" by blast
    show ?thesis
      using a a1 fr by auto
  qed
qed

lemma perform_handoff_cases [consumes 1, case_names noop moved]:
  assumes "perform_handoff s i k = (Inr r, s')"
  obtains (noop) u where "s' = s" "\<not> DONE r" "validate_ue s i = Inr u" "ap u = k"
    | (moved) ues aps u a b u' a' b' where
        "ue_dict s = Some ues" "ap_dict s = Some aps"
        "map_of ues i = Some u" "map_of aps (ap u) = Some a" "ap u \<noteq> k"
        "map_of aps k = Some b" "ue_id u \<in> n_ues a (app u)"
        "ap_dict s' = Some (AList.update k b' (AList.update (ap u) a' aps))"
        "ue_dict s' = Some (AList.update i u' ues)"
        "location_to_ap_lookup s' = location_to_ap_lookup s"
        "aps_per_axis s' = aps_per_axis s" "explore_radius s' = explore_radius s"
        "ap_id a' = ap_id a" "AP.location a' = AP.location a"
        "n_ues a' = (n_ues a)(app u := n_ues a (app u) - {ue_id u})"
        "ues_meeting_sla a' = (ues_meeting_sla a)(app u := ues_meeting_sla a (app u) - sla u)"
        "ap_id b' = ap_id b" "AP.location b' = AP.location b"
        "n_ues b' = (n_ues b)(app u := insert (ue_id u) (n_ues b (app u)))"
        "ues_meeting_sla b' = (ues_meeting_sla b)(app u := ues_meeting_sla b (app u) + sla u')"
        "ue_id u' = ue_id u" "ap u' = k" "app u' = app u"
        "UE.location u' = UE.location u" "sla u' = 0 \<or> sla u' = 1"
        "fetch_neighboring_aps s u' b' = Inr (neighboring_aps u')"
        "r = \<lparr>DONE = True, UE = Some u', OLD_AP = Some a', NEW_AP = Some b'\<rparr>"
  using perform_handoff_Inr[OF assms]
  apply (erule_tac disjE)
   apply (elim exE conjE)
   apply (rule noop; assumption)
  apply (elim exE conjE)
  apply (rule moved; assumption)
  done

lemma perform_handoff_well_formed:
  assumes wf: "well_formed s" and run: "perform_handoff s i k = (Inr r, s')"
  shows "well_formed s'"
  using run
proof (cases rule: perform_handoff_cases)
  case (noop u0)
  then show ?thesis using wf by simp
next
  case (moved ues aps u a b u' a' b')
  let ?A = "map_of aps" and ?U = "map_of ues"
  have A: "aps_of s = ?A" and U: "ues_of s = ?U"
    using moved(1,2) by (simp_all add: aps_of_Some ues_of_Some)
  have A': "aps_of s' = (?A(ap u \<mapsto> a'))(k \<mapsto> b')"
    using moved(8) by (simp add: aps_of_Some update_conv')
  have U': "ues_of s' = (?U(i := None))(i \<mapsto> u')"
    using moved(9) by (simp add: ues_of_Some update_conv')
  have c: "consistent ?A ?U" using wf A U by (simp add: well_formed_def)
  have id: "ue_id u = i" using c moved(3) unfolding consistent_def by blast
  have c1: "consistent (?A(ap u \<mapsto> a')) (?U(i := None))"
    using c moved(3,4,13,15,16) id by (intro consistent_remove) simp_all
  have c2: "consistent ((?A(ap u \<mapsto> a'))(k \<mapsto> b')) ((?U(i := None))(i \<mapsto> u'))"
    using c1 moved id
    by (intro consistent_add[where a = b]) simp_all
  have loc: "\<exists>a1. aps_of s' j = Some a1 \<and> AP.location a1 = AP.location a0"
    if "aps_of s j = Some a0" for j a0
    using that moved(4,6,14,18) unfolding A A' by (auto split: if_splits)
  have l0: "lookup_ok s" and n0: "neighbors_ok s (ues_of s)"
    using wf by (simp_all add: well_formed_def)
  have l: "lookup_ok s'"
    by (rule lookup_ok_step[OF l0 moved(10) loc])
  have fe: "fetch_neighboring_aps s' u' b' = Inr (neighboring_aps u')"
    using moved(10,11,12,26) fetch_neighboring_aps_cong[of s' s u' u' b' b'] by simp
  have new: "\<exists>a. aps_of s' (ap u') = Some a
      \<and> fetch_neighboring_aps s' u' a = Inr (neighboring_aps u')"
    using fe A' moved(22) by simp
  have "neighbors_ok s' ((ues_of s)(i \<mapsto> u'))"
    by (rule neighbors_ok_step[OF n0 moved(10,11,12) loc new])
  then have n: "neighbors_ok s' (ues_of s')" unfolding U U' by simp
  show ?thesis
    unfolding well_formed_def using moved(8,9) c2 l n A' U' by simp
qed

lemma instantiate_ue_loop_inv:
  assumes inv: "loop_inv s U" and new: "U i = None"
    and run: "instantiate_ue s i d = (Inr u, s')"
  shows "loop_inv s' (U(i \<mapsto> u)) \<and> ue_dict s' = ue_dict s
       \<and> location_to_ap_lookup s' = location_to_ap_lookup s
       \<and> aps_per_axis s' = aps_per_axis s \<and> explore_radius s' = explore_radius s"
proof -
  from inv obtain aps where aps: "ap_dict s = Some aps"
    by (auto simp: loop_inv_def)
  from instantiate_ue_Inr[OF run aps] obtain a a' nb cl where f:
    "map_of aps (ap u) = Some a"
    "ap_dict s' = Some (AList.update (ap u) a' aps)"
    "ue_dict s' = ue_dict s"
    "location_to_ap_lookup s' = location_to_ap_lookup s"
    "aps_per_axis s' = aps_per_axis s" "explore_radius s' = explore_radius s"
    "ue_id u = i" "sla u = 0 \<or> sla u = 1"
    "ap_id a' = ap_id a" "AP.location a' = AP.location a"
    "n_ues a' = (n_ues a)(app u := insert i (n_ues a (app u)))"
    "ues_meeting_sla a' = (ues_meeting_sla a)(app u := ues_meeting_sla a (app u) + sla u)"
    "get_neighboring_aps (UE.location u) (aps_per_axis s) (explore_radius s) = Inr nb"
    "get_closest_ap_location (within_grid nb) (UE.location u) = Inr cl"
    "map_of (location_to_ap_lookup s) cl = Some (ap u)"
    "neighboring_ap_ids s cl (within_grid nb @ rest nb) = Inr (neighboring_aps u)"
    by blast
  have A: "aps_of s = map_of aps" using aps by (simp add: aps_of_Some)
  have A': "aps_of s' = (map_of aps)(ap u \<mapsto> a')"
    using f(2) by (simp add: aps_of_Some update_conv')
  have c0: "consistent (map_of aps) U" and l0: "lookup_ok s" and n0: "neighbors_ok s U"
    and cl0: "closest_ok s U"
    using inv A by (simp_all add: loop_inv_def)
  have c: "consistent ((map_of aps)(ap u \<mapsto> a')) (U(i \<mapsto> u))"
    using c0 new f(1,7,8,9,11,12) by (intro consistent_add[where a = a]) simp_all
  have loc: "\<exists>a1. aps_of s' j = Some a1 \<and> AP.location a1 = AP.location a0"
    if "aps_of s j = Some a0" for j a0
    using that f(1,10) unfolding A A' by (auto split: if_splits)
  have l: "lookup_ok s'" by (rule lookup_ok_step[OF l0 f(4) loc])
  have at: "AP.location a = cl"
    using l0 f(15) f(1) A unfolding lookup_ok_def by fastforce
  have "neighboring_ap_ids s' cl (within_grid nb @ rest nb) = Inr (neighboring_aps u)"
    using f(16) neighboring_ap_ids_lookup[OF f(4), of cl "within_grid nb @ rest nb"] by simp
  then have fe: "fetch_neighboring_aps s' u a' = Inr (neighboring_aps u)"
    using f(5,6,10,13) at by (simp add: fetch_neighboring_aps_def)
  have new_n: "\<exists>b. aps_of s' (ap u) = Some b
      \<and> fetch_neighboring_aps s' u b = Inr (neighboring_aps u)"
    using fe A' by simp
  have n: "neighbors_ok s' (U(i \<mapsto> u))"
    by (rule neighbors_ok_step[OF n0 f(4,5,6) loc new_n])
  have new_c: "\<exists>b nb. aps_of s' (ap u) = Some b
           \<and> get_neighboring_aps (UE.location u) (aps_per_axis s') (explore_radius s') = Inr nb
           \<and> AP.location b \<in> set (within_grid nb)
           \<and> (\<forall>x \<in> set (within_grid nb).
                 get_ue_ap_distance (AP.location b) (UE.location u)
                   \<le> get_ue_ap_distance x (UE.location u))"
    apply (rule exI[of _ a'], rule exI[of _ nb])
    using A' f(5,6,10,13) at get_closest_ap_location_min[OF f(14)] by simp
  have cl: "closest_ok s' (U(i \<mapsto> u))"
    by (rule closest_ok_step[OF cl0 f(5,6) loc new_c])
  show ?thesis
    using f(2,3,4,5,6) c l n cl A' by (simp add: loop_inv_def)
qed

lemma instantiate_ues_loop_inv:
  assumes "loop_inv s (map_of ues)" "\<forall>i \<in> set ids. map_of ues i = None" "distinct ids"
    and "instantiate_ues_loop ids rng ues s = (Inr ues', s')"
  shows "loop_inv s' (map_of ues') \<and> ue_dict s' = ue_dict s
       \<and> location_to_ap_lookup s' = location_to_ap_lookup s
       \<and> aps_per_axis s' = aps_per_axis s \<and> explore_radius s' = explore_radius s"
  using assms
proof (induction ids arbitrary: ues s)
  case Nil
  then show ?case by simp
next
  case (Cons i ids)
  from Cons.prems(4) obtain u s1 where
    st: "instantiate_ue s i (rng i) = (Inr u, s1)"
    and lp: "instantiate_ues_loop ids rng (AList.update i u ues) s1 = (Inr ues', s')"
    by (auto split: prod.splits sum.splits)
  have new: "map_of ues i = None" using Cons.prems(2) by simp
  note step = instantiate_ue_loop_inv[OF Cons.prems(1) new st]
  have inv1: "loop_inv s1 (map_of (AList.update i u ues))"
    using step by (simp add: update_conv')
  have fresh: "\<forall>j \<in> set ids. map_of (AList.update i u ues) j = None"
    using Cons.prems(2,3) by (auto simp: update_conv')
  have "distinct ids" using Cons.prems(3) by simp
  from Cons.IH[OF inv1 fresh this lp] step show ?case by simp
qed

lemma place_aps_loop_inv:
  assumes "place_aps_loop ls i lookup aps = (lookup', aps')"
    and "\<forall>l k. map_of lookup l = Some k \<longrightarrow> map_of aps k = Some (new_AP k l)"
    and "\<forall>k a. map_of aps k = Some a \<longrightarrow> (\<exists>l. a = new_AP k l)"
    and "\<forall>k\<ge>i. map_of aps k = None"
  shows "(\<forall>l k. map_of lookup' l = Some k \<longrightarrow> map_of aps' k = Some (new_AP k l))
       \<and> (\<forall>k a. map_of aps' k = Some a \<longrightarrow> (\<exists>l. a = new_AP k l))"
  using assms
proof (induction ls arbitrary: i lookup aps)
  case Nil
  then show ?case by simp
next
  case (Cons l ls)
  let ?lookup = "AList.update l i lookup" and ?aps = "AList.update i (new_AP i l) aps"
  have run: "place_aps_loop ls (Suc i) ?lookup ?aps = (lookup', aps')"
    using Cons.prems(1) by simp
  have lt: "k < i" if "map_of lookup l0 = Some k" for l0 k
    using that Cons.prems(2,4) by (metis not_le option.distinct(1))
  have ne: "map_of lookup l0 \<noteq> Some i" for l0
    using lt[of l0 i] by auto
  have a: "\<forall>l0 k. map_of ?lookup l0 = Some k \<longrightarrow> map_of ?aps k = Some (new_AP k l0)"
    using Cons.prems(2) ne by (auto simp: update_conv')
  have b: "\<forall>k a. map_of ?aps k = Some a \<longrightarrow> (\<exists>l0. a = new_AP k l0)"
    using Cons.prems(3) by (cases l) (auto simp: update_conv')
  have c: "\<forall>k\<ge>Suc i. map_of ?aps k = None"
    using Cons.prems(4) by (auto simp: update_conv')
  from Cons.IH[OF run a b c] show ?case .
qed

lemma StaticNetwork_init_inv:
  assumes "StaticNetwork_init n_ues0 n_aps0 scale0 radius0 rng = Inr s"
  shows "well_formed s \<and> closest_ok s (ues_of s)"
proof -
  let ?units = "nat \<lfloor>fl (sqrt (real n_aps0))\<rfloor>"
  let ?s0 = "\<lparr>num_ues = n_ues0, num_aps = n_aps0, scale = scale0,
                explore_radius = radius0, x_units = ?units,
                aps_per_axis = map (\<lambda>i. fl ((1 + 2 * real i) * scale0)) [0..<?units],
                location_to_ap_lookup = [], ap_dict = None, ue_dict = None,
                ue_app_stats = (\<lambda>_. 0), ue_sla_stats = (\<lambda>_. 0)\<rparr>"
  obtain lookup aps where pl:
    "place_aps_loop (List.product (aps_per_axis ?s0) (aps_per_axis ?s0)) 1 [] [] = (lookup, aps)"
    by (cases "place_aps_loop (List.product (aps_per_axis ?s0) (aps_per_axis ?s0)) 1 [] []")
  let ?s2 = "?s0\<lparr>location_to_ap_lookup := lookup, ap_dict := Some aps\<rparr>"
  from assms pl obtain ues s3 where lp: "instantiate_ues ?s2 rng = (Inr ues, s3)"
    and s: "s = s3\<lparr>ue_dict := Some ues\<rparr>"
    by (auto simp: StaticNetwork_init_def place_aps_def Let_def split: prod.splits sum.splits)
  from place_aps_loop_inv[OF pl] have pa:
    "\<forall>l k. map_of lookup l = Some k \<longrightarrow> map_of aps k = Some (new_AP k l)"
    "\<forall>k a. map_of aps k = Some a \<longrightarrow> (\<exists>l. a = new_AP k l)"
    by simp_all
  have A2: "aps_of ?s2 = map_of aps" by (simp add: aps_of_def)
  have c: "consistent (map_of aps) (map_of [])"
    unfolding consistent_def using pa(2) by (fastforce simp: new_AP_def meeting_def)
  have l: "lookup_ok ?s2"
    unfolding lookup_ok_def A2 using pa(1) by (auto simp: new_AP_def)
  have inv: "loop_inv ?s2 (map_of [])"
    unfolding loop_inv_def A2 using c l by (simp add: neighbors_ok_def closest_ok_def)
  have inv3: "loop_inv s3 (map_of ues)"
    using instantiate_ues_loop_inv[OF inv _ _ lp[unfolded instantiate_ues_def]] by simp
  have A: "aps_of s = aps_of s3" and U: "ues_of s = map_of ues"
    using s by (simp_all add: aps_of_def ues_of_def)
  have fr: "location_to_ap_lookup s = location_to_ap_lookup s3"
    "aps_per_axis s = aps_per_axis s3" "explore_radius s = explore_radius s3"
    "ap_dict s = ap_dict s3" "ue_dict s = Some ues"
    using s by simp_all
  have fe: "fetch_neighboring_aps s u a = fetch_neighboring_aps s3 u a" for u a
    using fr by (intro fetch_neighboring_aps_cong) simp_all
  have "lookup_ok s = lookup_ok s3"
    unfolding lookup_ok_def A fr by simp
  moreover have "neighbors_ok s (map_of ues) = neighbors_ok s3 (map_of ues)"
    unfolding neighbors_ok_def A fe by simp
  moreover have "closest_ok s (map_of ues) = closest_ok s3 (map_of ues)"
    unfolding closest_ok_def A fr by simp
  ultimately show ?thesis
    using inv3 fr(4,5) unfolding well_formed_def loop_inv_def A U by simp
qed

lemma reachable_well_formed: "reachable s \<Longrightarrow> well_formed s"
proof (induction rule: reachable.induct)
  case (reachable_init n_ues0 n_aps0 scale0 radius0 rng s)
  then show ?case using StaticNetwork_init_inv by blast
next
  case (reachable_handoff s i k r s')
  then show ?case using perform_handoff_well_formed by blast
qed

section \<open>Properties of the simulator's states\<close>

lemma ap_info_iff: "ap_info s k = Inr a \<longleftrightarrow> ap_dict s \<noteq> None \<and> aps_of s k = Some a"
  by (auto simp: ap_info_def validate_ap_def aps_of_def split: option.splits)

lemma ue_info_iff: "ue_info s i = Inr u \<longleftrightarrow> ue_dict s \<noteq> None \<and> ues_of s i = Some u"
  by (auto simp: ue_info_def validate_ue_def ues_of_def split: option.splits)

lemma reachable_example: "reachable example_network"
  by (rule reachable_init[OF init_example])

lemma ap_info_example:
  "ap_info example_network 1 =
     Inr ((new_AP 1 (100, 100))\<lparr>n_ues := (\<lambda>_. {})(Web := {1}),
                                ues_meeting_sla := (\<lambda>_. 0)(Web := 1)\<rparr>)"
  by (simp add: ap_info_def validate_ap_def example_network_def)

lemma ue_info_example: "ue_info example_network i = (if i = 1 then Inr example_ue else Inl KeyError)"
  by (simp add: ue_info_def validate_ue_def example_network_def)

text \<open>
  C5. In every state reached by the constructor and any number of returning handoffs, each
  counter of each AP is the number of UE ids in the AP's set for that application whose
  stored \<open>sla\<close> is 1.
\<close>

theorem ues_meeting_sla_counts:
  assumes "reachable s" "ap_info s k = Inr a"
  shows "ues_meeting_sla a c
           = int (card {i \<in> n_ues a c. \<exists>u. ue_info s i = Inr u \<and> sla u = 1})"
proof -
  have wf: "well_formed s" by (rule reachable_well_formed[OF assms(1)])
  then have c: "consistent (aps_of s) (ues_of s)" and ne: "ue_dict s \<noteq> None"
    by (simp_all add: well_formed_def)
  have a: "aps_of s k = Some a" using assms(2) by (simp add: ap_info_iff)
  have "{i \<in> n_ues a c. \<exists>u. ue_info s i = Inr u \<and> sla u = 1} = meeting (ues_of s) (n_ues a c)"
    using ne by (simp add: meeting_def ue_info_iff)
  then show ?thesis using c a unfolding consistent_def by simp
qed

theorem ues_meeting_sla_counts_witness:
  "reachable example_network
   \<and> ap_info example_network 1 =
       Inr ((new_AP 1 (100, 100))\<lparr>n_ues := (\<lambda>_. {})(Web := {1}),
                                  ues_meeting_sla := (\<lambda>_. 0)(Web := 1)\<rparr>)
   \<and> int (card {i \<in> {1::nat}. \<exists>u. ue_info example_network i = Inr u \<and> sla u = 1}) = 1"
  using ues_meeting_sla_counts[OF reachable_example ap_info_example, of Web]
    reachable_example ap_info_example
  by simp

text \<open>
  C6. In every such state a UE id that is in the set of AP \<open>k\<close> for application \<open>c\<close> is in
  no other set of any AP of the map; it is the id of a UE whose \<open>ap\<close> is \<open>k\<close>, the
  \<open>ap_id\<close> of that AP, and whose application is \<open>c\<close>. And every UE is in the set of the
  AP it names, under its application.
\<close>

theorem ue_in_exactly_one_ap:
  assumes "reachable s"
  shows "(ap_info s k = Inr a \<and> i \<in> n_ues a c \<longrightarrow>
            ap_id a = k
          \<and> (\<exists>u. ue_info s i = Inr u \<and> ue_id u = i \<and> ap u = k \<and> app u = c)
          \<and> (\<forall>k' a' c'. ap_info s k' = Inr a' \<and> i \<in> n_ues a' c' \<longrightarrow> k' = k \<and> c' = c))
       \<and> (ue_info s j = Inr v \<longrightarrow>
            (\<exists>b. ap_info s (ap v) = Inr b \<and> ap_id b = ap v \<and> j \<in> n_ues b (app v)))"
proof -
  have wf: "well_formed s" by (rule reachable_well_formed[OF assms(1)])
  then have c: "consistent (aps_of s) (ues_of s)" and ne: "ue_dict s \<noteq> None" "ap_dict s \<noteq> None"
    by (simp_all add: well_formed_def)
  have i1: "ap_id a0 = k0" if "aps_of s k0 = Some a0" for k0 a0
    using c that unfolding consistent_def by blast
  have i2: "\<exists>a0. aps_of s (ap u0) = Some a0 \<and> i0 \<in> n_ues a0 (app u0)" "ue_id u0 = i0"
    if "ues_of s i0 = Some u0" for i0 u0
    using c that unfolding consistent_def by blast+
  have i3: "\<exists>u0. ues_of s i0 = Some u0 \<and> ap u0 = k0 \<and> app u0 = c0"
    if "aps_of s k0 = Some a0" "i0 \<in> n_ues a0 c0" for k0 a0 c0 i0
    using c that unfolding consistent_def by blast
  have p1: "ap_id a = k
          \<and> (\<exists>u. ue_info s i = Inr u \<and> ue_id u = i \<and> ap u = k \<and> app u = c)
          \<and> (\<forall>k' a' c'. ap_info s k' = Inr a' \<and> i \<in> n_ues a' c' \<longrightarrow> k' = k \<and> c' = c)"
    if h: "ap_info s k = Inr a" "i \<in> n_ues a c"
  proof -
    have a: "aps_of s k = Some a" using h(1) by (simp add: ap_info_iff)
    from i3[OF a h(2)] obtain u where u: "ues_of s i = Some u" "ap u = k" "app u = c"
      by blast
    have "k' = k \<and> c' = c" if "ap_info s k' = Inr a'" "i \<in> n_ues a' c'" for k' a' c'
    proof -
      have "aps_of s k' = Some a'" using that(1) by (simp add: ap_info_iff)
      from i3[OF this that(2)] u show ?thesis by auto
    qed
    then show ?thesis
      using i1[OF a] u i2(2)[OF u(1)] ne by (auto simp: ue_info_iff)
  qed
  have p2: "\<exists>b. ap_info s (ap v) = Inr b \<and> ap_id b = ap v \<and> j \<in> n_ues b (app v)"
    if h: "ue_info s j = Inr v"
  proof -
    have v: "ues_of s j = Some v" using h by (simp add: ue_info_iff)
    from i2(1)[OF v] obtain b where b: "aps_of s (ap v) = Some b" "j \<in> n_ues b (app v)"
      by blast
    then show ?thesis using i1[OF b(1)] ne by (auto simp: ap_info_iff)
  qed
  show ?thesis using p1 p2 by blast
qed

theorem ue_in_exactly_one_ap_witness:
  "reachable example_network
   \<and> ap_info example_network 1 =
       Inr ((new_AP 1 (100, 100))\<lparr>n_ues := (\<lambda>_. {})(Web := {1}),
                                  ues_meeting_sla := (\<lambda>_. 0)(Web := 1)\<rparr>)
   \<and> (1::nat) \<in> ((\<lambda>_. {})(Web := {1})) Web
   \<and> ue_info example_network 1 = Inr example_ue
   \<and> ue_id example_ue = 1 \<and> ap example_ue = 1 \<and> app example_ue = Web"
  using ue_in_exactly_one_ap[OF reachable_example, of 1 _ 1 Web 1 example_ue]
    reachable_example ap_info_example
  by (simp add: ue_info_example example_ue_def)

text \<open>
  C7. A handoff of an existing UE to the AP it is attached to returns \<open>DONE = False\<close> with
  \<open>UE\<close>, \<open>OLD_AP\<close> and \<open>NEW_AP\<close> absent, and the simulator is left as it was. This holds
  in every reachable state, and in any state in which the AP the UE names is in the AP map
  (\<open>perform_handoff\<close> reads \<open>self._ap_dict[ue.ap]\<close> before it compares the ids).
\<close>

theorem perform_handoff_same_ap_noop:
  assumes "ue_info s i = Inr u" and "reachable s \<or> (\<exists>a. ap_info s (ap u) = Inr a)"
  shows "perform_handoff s i (ap u)
           = (Inr \<lparr>DONE = False, UE = None, OLD_AP = None, NEW_AP = None\<rparr>, s)"
proof -
  have "\<exists>a. ap_info s (ap u) = Inr a"
  proof (cases "reachable s")
    case True
    then have "well_formed s" by (rule reachable_well_formed)
    then have "consistent (aps_of s) (ues_of s)" "ap_dict s \<noteq> None"
      by (simp_all add: well_formed_def)
    then show ?thesis
      using assms(1) unfolding ap_info_iff ue_info_iff consistent_def by blast
  next
    case False
    then show ?thesis using assms(2) by simp
  qed
  then show ?thesis
    using assms(1)
    by (auto simp: perform_handoff_def ue_info_def ap_info_def validate_ap_def
        split: option.splits)
qed

theorem perform_handoff_same_ap_noop_witness:
  "ue_info example_network 1 = Inr example_ue \<and> reachable example_network
   \<and> perform_handoff example_network 1 1
       = (Inr \<lparr>DONE = False, UE = None, OLD_AP = None, NEW_AP = None\<rparr>, example_network)"
proof -
  have u: "ue_info example_network 1 = Inr example_ue" by (simp add: ue_info_example)
  have "ap example_ue = 1" by (simp add: example_ue_def)
  then show ?thesis
    using perform_handoff_same_ap_noop[OF u disjI1[OF reachable_example]] u reachable_example
    by simp
qed

lemma neighboring_ap_ids_map:
  "neighboring_ap_ids s cur locs = Inr ids \<Longrightarrow>
     map Some ids = map (map_of (location_to_ap_lookup s)) (filter (\<lambda>l. cur \<noteq> l) locs)"
  by (induction locs arbitrary: ids) (auto split: option.splits sum.splits if_splits)

text \<open>
  The distance between two opposite corners of a cell of the small network lies between 1
  and 512, so that neither the throughput nor the signal power of a UE moved across the
  cell raises.
\<close>

lemma norm_200:
  assumes "\<bar>x\<bar> = 200" "\<bar>y\<bar> = 200"
  shows "1 \<le> np_around (np_linalg_norm (fl x, fl y)) 3
       \<and> np_around (np_linalg_norm (fl x, fl y)) 3 \<le> 512"
proof -
  have "x = 200 \<or> x = - 200" using assms(1) by linarith
  then have fx: "fl x = x" by auto
  have "y = 200 \<or> y = - 200" using assms(2) by linarith
  then have fy: "fl y = y" by auto
  have "x * x = \<bar>x\<bar> * \<bar>x\<bar>" "y * y = \<bar>y\<bar> * \<bar>y\<bar>" by simp_all
  then have sq: "x * x = 40000" "y * y = 40000" using assms by simp_all
  have n: "np_linalg_norm (fl x, fl y) = fl (sqrt 80000)"
    by (simp add: np_linalg_norm_def np_sqrt_def fx fy sq)
  have "(1::real) \<le> sqrt 80000" by (simp add: real_le_rsqrt)
  moreover have "sqrt 80000 \<le> (512::real)" by (rule real_le_lsqrt) simp_all
  ultimately have "1 \<le> fl (sqrt 80000)" "fl (sqrt 80000) \<le> 512"
    using fl_mono[of 1 "sqrt 80000"] fl_mono[of "sqrt 80000" 512] by simp_all
  then show ?thesis
    unfolding n
    using np_around_mono[of 1 "fl (sqrt 80000)" 3] np_around_mono[of "fl (sqrt 80000)" 512 3]
    by simp
qed

lemma far_distance:
  "1 \<le> get_ue_ap_distance (100, 100) (300, 300)"
  "get_ue_ap_distance (100, 100) (300, 300) \<le> 512"
  "1 \<le> get_ue_ap_distance (300, 300) (100, 100)"
  "get_ue_ap_distance (300, 300) (100, 100) \<le> 512"
  using norm_200[of "100 - 300" "100 - 300"] norm_200[of "300 - 100" "300 - 100"]
  by (simp_all add: get_ue_ap_distance_def)

lemma far_throughput:
  "get_ue_throughput 100 (NpFloat (get_ue_ap_distance (100, 100) (300, 300))) n 25 10 req =
     Inr (min (np_around (fl (np_around (fl (exp (fl
                 (- get_ue_ap_distance (100, 100) (300, 300) / fl (2 * 100))))) 3 * 10)) 3)
           (min (np_around (fl ((if n = 0 then 1 else fl (1 / of_int n)) * 25)) 3) req))"
proof -
  have "(512::real) \<le> DBL_MAX" by (simp add: DBL_MAX_def)
  then have "get_ue_ap_distance (100, 100) (300, 300) \<le> DBL_MAX"
    using far_distance(2) by linarith
  moreover have "0 \<le> get_ue_ap_distance (100, 100) (300, 300)"
    using far_distance(1) by linarith
  moreover have "\<bar>25\<bar> \<le> DBL_MAX" "\<bar>10\<bar> \<le> DBL_MAX" by (simp_all add: DBL_MAX_def)
  ultimately show ?thesis by (intro throughput_in_range(2)) simp_all
qed

lemma far_sig_power:
  "\<exists>r. get_ue_sig_power (get_ue_ap_distance (100, 100) (300, 300)) = Inr (Some r)"
proof -
  have "(1::real) / 2 ^ 511 \<le> 1" by simp
  then have "1 / 2 ^ 511 \<le> \<bar>get_ue_ap_distance (100, 100) (300, 300)\<bar>"
    using far_distance(1) by linarith
  moreover have "(512::real) \<le> 2 ^ 511" by simp
  then have "\<bar>get_ue_ap_distance (100, 100) (300, 300)\<bar> \<le> 2 ^ 511"
    using far_distance(1,2) by linarith
  ultimately show ?thesis using sig_power_in_range by blast
qed

lemma example_handoff:
  "\<exists>r s'. perform_handoff example_network 1 4 = (Inr r, s') \<and> DONE r
      \<and> map_sum id ap (ue_info s' 1) = Inr 4"
proof -
  obtain p where p: "get_ue_sig_power (get_ue_ap_distance (100, 100) (300, 300)) = Inr (Some p)"
    using far_sig_power by blast
  show ?thesis
    by (simp add: perform_handoff_def validate_ue_def validate_ap_def handoff_to_ap_def
      store_ap_def store_ue_def Let_def example_network_def example_ue_def new_AP_def
      fetch_neighboring_aps_def get_neighboring_aps_example update_ue_stats_def
      calculate_ue_throughput_def far_throughput total_ues_def
      calculate_ue_sla_def calculate_ue_signal_power_def p ue_info_def)
qed

lemma example_handoff_fst:
  "map_sum id DONE (fst (perform_handoff example_network 1 4)) = Inr True
   \<and> map_sum id ap (ue_info (snd (perform_handoff example_network 1 4)) 1) = Inr 4"
proof -
  obtain p where p: "get_ue_sig_power (get_ue_ap_distance (100, 100) (300, 300)) = Inr (Some p)"
    using far_sig_power by blast
  show ?thesis
    by (simp add: perform_handoff_def validate_ue_def validate_ap_def handoff_to_ap_def
      store_ap_def store_ue_def Let_def example_network_def example_ue_def new_AP_def
      fetch_neighboring_aps_def get_neighboring_aps_example update_ue_stats_def
      calculate_ue_throughput_def far_throughput total_ues_def
      calculate_ue_sla_def calculate_ue_signal_power_def p ue_info_def)
qed

lemma far_corner: "get_ue_ap_distance (100, 100) (100, 100) < get_ue_ap_distance (300, 300) (100, 100)"
  using far_distance(3) by simp

text \<open>
  C4. In every reachable state, hence for every UE made by the constructor and after every
  handoff, the UE's \<open>neighboring_aps\<close> are the AP ids of the locations in \<open>within_grid\<close>
  and \<open>rest\<close> of the neighbour search for the UE's location and the explore radius, without
  the location of the UE's current AP (\<open>neighboring_ap_ids\<close> leaves it out). In the state
  the constructor returns, each UE's AP sits on a corner in \<open>within_grid\<close> and no corner
  has a smaller distance, rounded to three decimals, to the UE. After a handoff that is
  done, the UE's AP is the AP that was asked for, whatever its distance.
\<close>

theorem neighboring_aps_without_current_ap:
  "(reachable s \<and> ue_info s i = Inr u \<longrightarrow>
      (\<exists>a nb. ap_info s (ap u) = Inr a
         \<and> get_neighboring_aps (UE.location u) (aps_per_axis s) (explore_radius s) = Inr nb
         \<and> map Some (neighboring_aps u)
             = map (map_of (location_to_ap_lookup s))
                 (filter (\<lambda>l. AP.location a \<noteq> l) (within_grid nb @ rest nb))))
   \<and> (StaticNetwork_init n_ues0 n_aps0 scale0 radius0 rng = Inr s0 \<and> ue_info s0 j = Inr v \<longrightarrow>
      (\<exists>a nb. ap_info s0 (ap v) = Inr a
         \<and> get_neighboring_aps (UE.location v) (aps_per_axis s0) (explore_radius s0) = Inr nb
         \<and> AP.location a \<in> set (within_grid nb)
         \<and> (\<forall>b \<in> set (within_grid nb).
               get_ue_ap_distance (AP.location a) (UE.location v)
                 \<le> get_ue_ap_distance b (UE.location v))))
   \<and> (perform_handoff s1 i1 k = (Inr r, s2) \<and> DONE r \<longrightarrow>
      (\<exists>u'. UE r = Some u' \<and> ue_info s2 i1 = Inr u' \<and> ap u' = k))"
proof -
  have p1: "\<exists>a nb. ap_info s (ap u) = Inr a
         \<and> get_neighboring_aps (UE.location u) (aps_per_axis s) (explore_radius s) = Inr nb
         \<and> map Some (neighboring_aps u)
             = map (map_of (location_to_ap_lookup s))
                 (filter (\<lambda>l. AP.location a \<noteq> l) (within_grid nb @ rest nb))"
    if h: "reachable s" "ue_info s i = Inr u"
  proof -
    have wf: "well_formed s" by (rule reachable_well_formed[OF h(1)])
    then have n: "neighbors_ok s (ues_of s)" and ne: "ap_dict s \<noteq> None"
      by (simp_all add: well_formed_def)
    have "ues_of s i = Some u" using h(2) by (simp add: ue_info_iff)
    with n obtain a where a: "aps_of s (ap u) = Some a"
      "fetch_neighboring_aps s u a = Inr (neighboring_aps u)"
      unfolding neighbors_ok_def by blast
    from a(2) obtain nb where nb:
      "get_neighboring_aps (UE.location u) (aps_per_axis s) (explore_radius s) = Inr nb"
      "neighboring_ap_ids s (AP.location a) (within_grid nb @ rest nb)
         = Inr (neighboring_aps u)"
      by (auto simp: fetch_neighboring_aps_def bindE_eq_Inr)
    show ?thesis
      using a(1) ne nb(1) neighboring_ap_ids_map[OF nb(2)] by (auto simp: ap_info_iff)
  qed
  have p2: "\<exists>a nb. ap_info s0 (ap v) = Inr a
         \<and> get_neighboring_aps (UE.location v) (aps_per_axis s0) (explore_radius s0) = Inr nb
         \<and> AP.location a \<in> set (within_grid nb)
         \<and> (\<forall>b \<in> set (within_grid nb).
               get_ue_ap_distance (AP.location a) (UE.location v)
                 \<le> get_ue_ap_distance b (UE.location v))"
    if h: "StaticNetwork_init n_ues0 n_aps0 scale0 radius0 rng = Inr s0" "ue_info s0 j = Inr v"
  proof -
    from StaticNetwork_init_inv[OF h(1)]
    have c: "closest_ok s0 (ues_of s0)" and ne: "ap_dict s0 \<noteq> None"
      by (simp_all add: well_formed_def)
    have "ues_of s0 j = Some v" using h(2) by (simp add: ue_info_iff)
    with c ne show ?thesis unfolding closest_ok_def ap_info_iff by blast
  qed
  have p3: "\<exists>u'. UE r = Some u' \<and> ue_info s2 i1 = Inr u' \<and> ap u' = k"
    if h: "perform_handoff s1 i1 k = (Inr r, s2)" "DONE r"
    using h(1)
  proof (cases rule: perform_handoff_cases)
    case (noop u0)
    then show ?thesis using h(2) by simp
  next
    case (moved ues aps u a b u' a' b')
    then show ?thesis
      by (simp add: ue_info_def validate_ue_def update_conv')
  qed
  show ?thesis using p1 p2 p3 by blast
qed

theorem neighboring_aps_without_current_ap_witness:
  "reachable example_network \<and> ue_info example_network 1 = Inr example_ue
   \<and> StaticNetwork_init 1 4 100 1 (\<lambda>_. example_draw) = Inr example_network
   \<and> (\<exists>r s'. perform_handoff example_network 1 4 = (Inr r, s') \<and> DONE r
        \<and> (\<exists>u'. UE r = Some u' \<and> ue_info s' 1 = Inr u' \<and> ap u' = 4))
   \<and> (\<exists>a nb. ap_info example_network (ap example_ue) = Inr a
         \<and> get_neighboring_aps (UE.location example_ue) (aps_per_axis example_network)
              (explore_radius example_network) = Inr nb
         \<and> map Some (neighboring_aps example_ue)
             = map (map_of (location_to_ap_lookup example_network))
                 (filter (\<lambda>l. AP.location a \<noteq> l) (within_grid nb @ rest nb))
         \<and> AP.location a \<in> set (within_grid nb))"
proof -
  have u: "ue_info example_network 1 = Inr example_ue" by (simp add: ue_info_example)
  obtain r s' where h: "perform_handoff example_network 1 4 = (Inr r, s')" "DONE r"
    using example_handoff by blast
  note t = neighboring_aps_without_current_ap[of example_network 1 example_ue
      1 4 100 1 "\<lambda>_. example_draw" example_network 1 example_ue example_network 1 4 r s']
  from t reachable_example u obtain a nb where c1:
    "ap_info example_network (ap example_ue) = Inr a"
    "get_neighboring_aps (UE.location example_ue) (aps_per_axis example_network)
       (explore_radius example_network) = Inr nb"
    "map Some (neighboring_aps example_ue)
       = map (map_of (location_to_ap_lookup example_network))
           (filter (\<lambda>l. AP.location a \<noteq> l) (within_grid nb @ rest nb))"
    by blast
  from t init_example u obtain a' nb' where c2:
    "ap_info example_network (ap example_ue) = Inr a'"
    "get_neighboring_aps (UE.location example_ue) (aps_per_axis example_network)
       (explore_radius example_network) = Inr nb'"
    "AP.location a' \<in> set (within_grid nb')"
    by blast
  from c1 c2 have c3: "AP.location a \<in> set (within_grid nb)" by simp
  from t h have c4: "\<exists>u'. UE r = Some u' \<and> ue_info s' 1 = Inr u' \<and> ap u' = 4"
    by blast
  show ?thesis
    using reachable_example u init_example h c1 c3 c4 by blast
qed

theorem neighboring_aps_counterexample:
  "StaticNetwork_init 1 4 100 1 (\<lambda>_. example_draw) = Inr example_network
   \<and> ue_info example_network 1 = Inr example_ue
   \<and> get_neighboring_aps (UE.location example_ue) (aps_per_axis example_network)
        (explore_radius example_network)
       = Inr \<lparr>within_grid = [(100, 100), (100, 300), (300, 100), (300, 300)], rest = []\<rparr>
   \<and> map (map_of (location_to_ap_lookup example_network))
        ([(100, 100), (100, 300), (300, 100), (300, 300)] @ [])
       = [Some 1, Some 2, Some 3, Some 4]
   \<and> neighboring_aps example_ue = [2, 3, 4]
   \<and> map_sum id DONE (fst (perform_handoff example_network 1 4)) = Inr True
   \<and> map_sum id ap (ue_info (snd (perform_handoff example_network 1 4)) 1) = Inr 4
   \<and> map_sum id AP.location (ap_info (snd (perform_handoff example_network 1 4)) 4)
       = Inr (300, 300)
   \<and> get_ue_ap_distance (100, 100) (UE.location example_ue)
       < get_ue_ap_distance (300, 300) (UE.location example_ue)"
proof -
  have a: "get_neighboring_aps (UE.location example_ue) (aps_per_axis example_network)
        (explore_radius example_network)
       = Inr \<lparr>within_grid = [(100, 100), (100, 300), (300, 100), (300, 300)], rest = []\<rparr>"
    using get_neighboring_aps_example by (simp add: example_ue_def example_network_def)
  have b: "map (map_of (location_to_ap_lookup example_network))
        ([(100, 100), (100, 300), (300, 100), (300, 300)] @ [])
       = [Some 1, Some 2, Some 3, Some 4]"
    by (simp add: example_network_def)
  obtain p where p: "get_ue_sig_power (get_ue_ap_distance (100, 100) (300, 300)) = Inr (Some p)"
    using far_sig_power by blast
  have c: "map_sum id AP.location (ap_info (snd (perform_handoff example_network 1 4)) 4)
       = Inr (300, 300)"
    by (simp add: perform_handoff_def validate_ue_def validate_ap_def handoff_to_ap_def
      store_ap_def store_ue_def Let_def example_network_def example_ue_def new_AP_def
      fetch_neighboring_aps_def get_neighboring_aps_example update_ue_stats_def
      calculate_ue_throughput_def far_throughput total_ues_def
      calculate_ue_sla_def calculate_ue_signal_power_def p ap_info_def)
  have d: "get_ue_ap_distance (100, 100) (UE.location example_ue)
       < get_ue_ap_distance (300, 300) (UE.location example_ue)"
    using far_corner by (simp add: example_ue_def)
  show ?thesis
    using init_example a b c d example_handoff_fst
    by (simp add: ue_info_example example_ue_def)
qed

end
